theory Spec2Isabelle
  imports Main
begin

section \<open>Two Sum: brute force, hash map and two pointers\<close>

text \<open>
  The Python module \<^verbatim>\<open>two_sum_solution.py\<close> has three functions over a list of
  integers \<^verbatim>\<open>nums\<close> and an integer \<^verbatim>\<open>target\<close>. Each returns the list
  \<^verbatim>\<open>[i, j]\<close> of two indices, or the empty list \<^verbatim>\<open>[]\<close>. Python integers are
  unbounded (\<^typ>\<open>int\<close>); indices produced by \<^verbatim>\<open>range\<close> and \<^verbatim>\<open>enumerate\<close>
  are natural numbers; the result is a \<^typ>\<open>nat list\<close>. Where a subscript could be
  out of range the exception is a value of its own (\<open>Inl\<close>) beside the result.
\<close>

subsection \<open>Brute force\<close>

text \<open>
  \<^verbatim>\<open>
  for i in range(len(nums)):
      for j in range(i + 1, len(nums)):
          if nums[i] + nums[j] == target:
              return [i, j]
  return []
  \<close>
  The inner loop is a counter \<open>j\<close> running up to \<open>len(nums)\<close>; \<open>None\<close> says that it
  ran to its end without returning. It is only entered with \<open>i < len(nums)\<close>, and it only
  reads \<open>nums[j]\<close> under the guard \<open>j < len(nums)\<close>, so no read is out of range.
\<close>

function bf_inner :: "int list \<Rightarrow> int \<Rightarrow> nat \<Rightarrow> nat \<Rightarrow> nat list option" where
  "bf_inner nums target i j =
     (if j < length nums then
        (if nums ! i + nums ! j = target then Some [i, j]
         else bf_inner nums target i (Suc j))
      else None)"
  by pat_completeness auto
termination
  by (relation "measure (\<lambda>(nums, target, i, j). length nums - j)") auto

declare bf_inner.simps [simp del]

function bf_outer :: "int list \<Rightarrow> int \<Rightarrow> nat \<Rightarrow> nat list" where
  "bf_outer nums target i =
     (if i < length nums then
        (case bf_inner nums target i (i + 1) of
           Some r \<Rightarrow> r
         | None \<Rightarrow> bf_outer nums target (Suc i))
      else [])"
  by pat_completeness auto
termination
  by (relation "measure (\<lambda>(nums, target, i). length nums - i)") auto

declare bf_outer.simps [simp del]

definition two_sum_brute_force :: "int list \<Rightarrow> int \<Rightarrow> nat list" where
  "two_sum_brute_force nums target = bf_outer nums target 0"

subsection \<open>Hash map\<close>

text \<open>
  \<^verbatim>\<open>
  num_map = {}
  for i, num in enumerate(nums):
      complement = target - num
      if complement in num_map:
          return [num_map[complement], i]
      num_map[num] = i
  return []
  \<close>
  The dictionary is a map from values to indices. The scan walks the list with the index
  \<open>i\<close> of its head; it stops with \<open>Inl [p, i]\<close> at the \<^verbatim>\<open>return\<close> inside the loop, and
  hands back the dictionary as it stands (\<open>Inr\<close>) when the loop runs to its end. The
  assignment \<^verbatim>\<open>num_map[num] = i\<close> is a plain store: \<open>num_map(num \<mapsto> i)\<close>.
\<close>

fun hm_scan :: "(int \<rightharpoonup> nat) \<Rightarrow> nat \<Rightarrow> int list \<Rightarrow> int \<Rightarrow> nat list + (int \<rightharpoonup> nat)" where
  "hm_scan num_map i [] target = Inr num_map"
| "hm_scan num_map i (num # rest) target =
     (let complement = target - num in
      case num_map complement of
        Some p \<Rightarrow> Inl [p, i]
      | None \<Rightarrow> hm_scan (num_map(num \<mapsto> i)) (Suc i) rest target)"

definition two_sum_hash_map :: "int list \<Rightarrow> int \<Rightarrow> nat list" where
  "two_sum_hash_map nums target =
     (case hm_scan Map.empty 0 nums target of Inl r \<Rightarrow> r | Inr num_map \<Rightarrow> [])"

text \<open>
  The dictionary on entry to iteration \<open>k\<close> of the loop (that is, after the elements at
  positions \<open>0..k-1\<close> went through the loop body), or \<open>None\<close> when the function has
  returned before that iteration. The first \<open>k\<close> iterations read the first \<open>k\<close>
  elements only, so this is the scan of the prefix \<open>take k nums\<close>; the lemma
  \<open>hm_scan_append\<close> below shows that the scan of the whole list passes through it.
\<close>

definition num_map_at :: "int list \<Rightarrow> int \<Rightarrow> nat \<Rightarrow> (int \<rightharpoonup> nat) option" where
  "num_map_at nums target k =
     (case hm_scan Map.empty 0 (take k nums) target of
        Inl r \<Rightarrow> None
      | Inr num_map \<Rightarrow> Some num_map)"

subsection \<open>Two pointers\<close>

text \<open>
  \<^verbatim>\<open>
  indexed_nums = [(num, idx) for idx, num in enumerate(nums)]
  indexed_nums.sort(key=lambda x: x[0])
  left, right = 0, len(indexed_nums) - 1
  while left < right:
      current_sum = indexed_nums[left][0] + indexed_nums[right][0]
      if current_sum == target:
          return [indexed_nums[left][1], indexed_nums[right][1]]
      elif current_sum < target:
          left += 1
      else:
          right -= 1
  return []
  \<close>
  \<open>left\<close> and \<open>right\<close> are Python integers (\<open>right\<close> starts at \<open>-1\<close> on the empty
  list), so they are \<^typ>\<open>int\<close> here. Subscripting a list with an integer follows Python:
  an index from \<open>-len\<close> up to \<open>-1\<close> counts from the end, and an index outside
  \<open>-len .. len-1\<close> raises \<^verbatim>\<open>IndexError\<close>. Python's \<^verbatim>\<open>list.sort\<close> is stable, as
  \<^const>\<open>sort_key\<close> is.
\<close>

datatype py_error = IndexError | TypeError

definition py_index :: "'a list \<Rightarrow> int \<Rightarrow> py_error + 'a" where
  "py_index xs k =
     (if 0 \<le> k \<and> k < int (length xs) then Inr (xs ! nat k)
      else if k < 0 \<and> - int (length xs) \<le> k then Inr (xs ! nat (int (length xs) + k))
      else Inl IndexError)"

text \<open>One run of the loop body: it returns, raises, or goes on with new pointers.\<close>

datatype tp_outcome = Return "nat list" | Raise py_error | Continue int int

definition tp_body :: "(int \<times> nat) list \<Rightarrow> int \<Rightarrow> int \<Rightarrow> int \<Rightarrow> tp_outcome" where
  "tp_body indexed_nums target left right =
     (case py_index indexed_nums left of
        Inl e \<Rightarrow> Raise e
      | Inr l \<Rightarrow>
          (case py_index indexed_nums right of
             Inl e \<Rightarrow> Raise e
           | Inr r \<Rightarrow>
               (let current_sum = fst l + fst r in
                if current_sum = target then Return [snd l, snd r]
                else if current_sum < target then Continue (left + 1) right
                else Continue left (right - 1))))"

function tp_loop :: "(int \<times> nat) list \<Rightarrow> int \<Rightarrow> int \<Rightarrow> int \<Rightarrow> py_error + nat list" where
  "tp_loop indexed_nums target left right =
     (if left < right then
        (case tp_body indexed_nums target left right of
           Return r \<Rightarrow> Inr r
         | Raise e \<Rightarrow> Inl e
         | Continue left' right' \<Rightarrow> tp_loop indexed_nums target left' right')
      else Inr [])"
  by pat_completeness auto
termination
  by (relation "measure (\<lambda>(indexed_nums, target, left, right). nat (right - left))")
     (auto simp: tp_body_def Let_def split: sum.splits if_splits)

declare tp_loop.simps [simp del]

definition two_sum_two_pointers :: "int list \<Rightarrow> int \<Rightarrow> py_error + nat list" where
  "two_sum_two_pointers nums target =
     (let indexed_nums = map (\<lambda>(idx, num). (num, idx)) (enumerate 0 nums);
          indexed_nums = sort_key fst indexed_nums
      in tp_loop indexed_nums target 0 (int (length indexed_nums) - 1))"

subsection \<open>The functions on a store of objects\<close>

text \<open>
  A Python function receives \<^verbatim>\<open>nums\<close> as a reference to a list object and could
  change that object in place. To say what a call does to its argument, the objects live
  in a store: a list of objects, an object's address being its position; creating an
  object appends it, so a new address is different from every address in use. A function
  takes the store and the address of \<^verbatim>\<open>nums\<close>, and returns its result with the store
  it leaves. An address that holds no list of integers is a malformed argument
  (\<^verbatim>\<open>TypeError\<close>); the specification leaves such input out of scope.
\<close>

datatype pyobj = IntList "int list" | PairList "(int \<times> nat) list" | IntDict "int \<rightharpoonup> nat"

type_synonym heap = "pyobj list"

definition heap_get :: "heap \<Rightarrow> nat \<Rightarrow> pyobj option" where
  "heap_get h a = (if a < length h then Some (h ! a) else None)"

definition heap_new :: "heap \<Rightarrow> pyobj \<Rightarrow> nat \<times> heap" where
  "heap_new h ob = (length h, h @ [ob])"

text \<open>
  \<open>two_sum_brute_force\<close> has no statement that stores into an object or creates a
  mutable one: it reads \<^verbatim>\<open>len(nums)\<close> and \<^verbatim>\<open>nums[i]\<close> only.
\<close>

definition brute_force_on :: "heap \<Rightarrow> nat \<Rightarrow> int \<Rightarrow> (py_error + nat list) \<times> heap" where
  "brute_force_on h nums target =
     (case heap_get h nums of
        Some (IntList xs) \<Rightarrow> (Inr (two_sum_brute_force xs target), h)
      | _ \<Rightarrow> (Inl TypeError, h))"

text \<open>
  \<open>two_sum_hash_map\<close> creates the dictionary \<^verbatim>\<open>num_map = {}\<close> and stores into it with
  \<^verbatim>\<open>num_map[num] = i\<close>. The \<^verbatim>\<open>for\<close> loop over \<^verbatim>\<open>enumerate(nums)\<close> reads the list
  object anew at every iteration: it goes on while \<open>i\<close> is less than the current length.
\<close>

function hm_scan_on :: "heap \<Rightarrow> nat \<Rightarrow> nat \<Rightarrow> nat \<Rightarrow> int \<Rightarrow> (py_error + nat list) \<times> heap" where
  "hm_scan_on h nums num_map i target =
     (case heap_get h nums of
        Some (IntList xs) \<Rightarrow>
          (if i < length xs then
             (let num = xs ! i in
              case heap_get h num_map of
                Some (IntDict d) \<Rightarrow>
                  (let complement = target - num in
                   case d complement of
                     Some p \<Rightarrow> (Inr [p, i], h)
                   | None \<Rightarrow>
                       hm_scan_on (h[num_map := IntDict (d(num \<mapsto> i))]) nums num_map (Suc i)
                         target)
              | _ \<Rightarrow> (Inl TypeError, h))
           else (Inr [], h))
      | _ \<Rightarrow> (Inl TypeError, h))"
  by pat_completeness auto
termination
  by (relation "measure (\<lambda>(h, nums, num_map, i, target).
        (case heap_get h nums of Some (IntList xs) \<Rightarrow> length xs - i | _ \<Rightarrow> 0))")
     (auto simp: heap_get_def nth_list_update split: if_splits pyobj.splits)

declare hm_scan_on.simps [simp del]

definition hash_map_on :: "heap \<Rightarrow> nat \<Rightarrow> int \<Rightarrow> (py_error + nat list) \<times> heap" where
  "hash_map_on h nums target =
     (case heap_get h nums of
        Some (IntList xs) \<Rightarrow>
          (let (num_map, h) = heap_new h (IntDict Map.empty)
           in hm_scan_on h nums num_map 0 target)
      | _ \<Rightarrow> (Inl TypeError, h))"

text \<open>
  \<open>two_sum_two_pointers\<close> creates the list \<^verbatim>\<open>indexed_nums\<close> by a comprehension and
  sorts that object in place; the \<^verbatim>\<open>while\<close> loop after it stores into no object.
\<close>

definition sort_on :: "heap \<Rightarrow> nat \<Rightarrow> heap" where
  "sort_on h a =
     (case heap_get h a of
        Some (PairList ps) \<Rightarrow> h[a := PairList (sort_key fst ps)]
      | _ \<Rightarrow> h)"

definition two_pointers_on :: "heap \<Rightarrow> nat \<Rightarrow> int \<Rightarrow> (py_error + nat list) \<times> heap" where
  "two_pointers_on h nums target =
     (case heap_get h nums of
        Some (IntList xs) \<Rightarrow>
          (let (indexed_nums, h) =
                 heap_new h (PairList (map (\<lambda>(idx, num). (num, idx)) (enumerate 0 xs)));
               h = sort_on h indexed_nums
           in case heap_get h indexed_nums of
                Some (PairList ps) \<Rightarrow> (tp_loop ps target 0 (int (length ps) - 1), h)
              | _ \<Rightarrow> (Inl TypeError, h))
      | _ \<Rightarrow> (Inl TypeError, h))"

section \<open>Properties of the brute force loops\<close>

lemma bf_inner_None_iff:
  "bf_inner nums target i j = None \<longleftrightarrow>
     (\<forall>k. j \<le> k \<and> k < length nums \<longrightarrow> nums ! i + nums ! k \<noteq> target)"
proof (induction nums target i j rule: bf_inner.induct)
  case (1 nums target i j)
  show ?case
  proof (cases "j < length nums")
    case False
    then show ?thesis by (simp add: bf_inner.simps [of nums target i j])
  next
    case inrange: True
    show ?thesis
    proof (cases "nums ! i + nums ! j = target")
      case True
      with inrange show ?thesis
        by (auto simp: bf_inner.simps [of nums target i j])
    next
      case False
      have "bf_inner nums target i j = bf_inner nums target i (Suc j)"
        using inrange False by (simp add: bf_inner.simps [of nums target i j])
      moreover have "(\<forall>k. j \<le> k \<and> k < length nums \<longrightarrow> nums ! i + nums ! k \<noteq> target) \<longleftrightarrow>
          (\<forall>k. Suc j \<le> k \<and> k < length nums \<longrightarrow> nums ! i + nums ! k \<noteq> target)"
        using False by (metis Suc_leI le_neq_implies_less Suc_leD)
      ultimately show ?thesis
        using "1.IH" [OF inrange False] by simp
    qed
  qed
qed

lemma bf_inner_Some:
  "bf_inner nums target i j = Some r \<Longrightarrow>
     \<exists>k. r = [i, k] \<and> j \<le> k \<and> k < length nums \<and> nums ! i + nums ! k = target \<and>
         (\<forall>k'. j \<le> k' \<and> k' < k \<longrightarrow> nums ! i + nums ! k' \<noteq> target)"
proof (induction nums target i j rule: bf_inner.induct)
  case (1 nums target i j)
  from "1.prems" have inrange: "j < length nums"
    by (simp add: bf_inner.simps [of nums target i j] split: if_splits)
  show ?case
  proof (cases "nums ! i + nums ! j = target")
    case True
    with inrange "1.prems" have "r = [i, j]"
      by (simp add: bf_inner.simps [of nums target i j])
    with True inrange show ?thesis by auto
  next
    case False
    with inrange "1.prems" have "bf_inner nums target i (Suc j) = Some r"
      by (simp add: bf_inner.simps [of nums target i j])
    from "1.IH" [OF inrange False this] obtain k where k:
      "r = [i, k]" "Suc j \<le> k" "k < length nums" "nums ! i + nums ! k = target"
      "\<forall>k'. Suc j \<le> k' \<and> k' < k \<longrightarrow> nums ! i + nums ! k' \<noteq> target"
      by blast
    have "\<forall>k'. j \<le> k' \<and> k' < k \<longrightarrow> nums ! i + nums ! k' \<noteq> target"
      using k(5) False by (metis Suc_leI le_neq_implies_less)
    with k show ?thesis by auto
  qed
qed

lemma bf_outer_Nil_iff:
  "bf_outer nums target i = [] \<longleftrightarrow>
     (\<forall>a b. i \<le> a \<and> a < b \<and> b < length nums \<longrightarrow> nums ! a + nums ! b \<noteq> target)"
proof (induction nums target i rule: bf_outer.induct)
  case (1 nums target i)
  show ?case
  proof (cases "i < length nums")
    case False
    then show ?thesis by (simp add: bf_outer.simps [of nums target i])
  next
    case inrange: True
    show ?thesis
    proof (cases "bf_inner nums target i (i + 1)")
      case None
      then have row: "\<forall>k. Suc i \<le> k \<and> k < length nums \<longrightarrow> nums ! i + nums ! k \<noteq> target"
        by (simp add: bf_inner_None_iff)
      have "bf_outer nums target i = bf_outer nums target (Suc i)"
        using inrange None by (simp add: bf_outer.simps [of nums target i])
      moreover have "(\<forall>a b. i \<le> a \<and> a < b \<and> b < length nums \<longrightarrow> nums ! a + nums ! b \<noteq> target) \<longleftrightarrow>
          (\<forall>a b. Suc i \<le> a \<and> a < b \<and> b < length nums \<longrightarrow> nums ! a + nums ! b \<noteq> target)"
        using row by (metis Suc_leI le_neq_implies_less Suc_leD)
      ultimately show ?thesis
        using "1.IH" [OF inrange None] by simp
    next
      case (Some r)
      from bf_inner_Some [OF Some] obtain k where k:
        "r = [i, k]" "i + 1 \<le> k" "k < length nums" "nums ! i + nums ! k = target"
        by blast
      have "bf_outer nums target i = r"
        using inrange Some by (simp add: bf_outer.simps [of nums target i])
      with k show ?thesis
        by (metis Suc_eq_plus1 Suc_le_lessD le_refl list.distinct(1))
    qed
  qed
qed

lemma bf_outer_pair:
  "bf_outer nums target i \<noteq> [] \<Longrightarrow>
     \<exists>a b. bf_outer nums target i = [a, b] \<and> i \<le> a \<and> a < b \<and> b < length nums \<and>
         nums ! a + nums ! b = target \<and>
         (\<forall>a' b'. i \<le> a' \<and> a' < b' \<and> b' < length nums \<and> nums ! a' + nums ! b' = target \<longrightarrow>
            a < a' \<or> (a = a' \<and> b \<le> b'))"
proof (induction nums target i rule: bf_outer.induct)
  case (1 nums target i)
  from "1.prems" have inrange: "i < length nums"
    by (simp add: bf_outer.simps [of nums target i] split: if_splits)
  show ?case
  proof (cases "bf_inner nums target i (i + 1)")
    case None
    then have row: "\<forall>k. Suc i \<le> k \<and> k < length nums \<longrightarrow> nums ! i + nums ! k \<noteq> target"
      by (simp add: bf_inner_None_iff)
    have eq: "bf_outer nums target i = bf_outer nums target (Suc i)"
      using inrange None by (simp add: bf_outer.simps [of nums target i])
    with "1.prems" have "bf_outer nums target (Suc i) \<noteq> []" by simp
    from "1.IH" [OF inrange None this] obtain a b where ab:
      "bf_outer nums target (Suc i) = [a, b]" "Suc i \<le> a" "a < b" "b < length nums"
      "nums ! a + nums ! b = target"
      "\<forall>a' b'. Suc i \<le> a' \<and> a' < b' \<and> b' < length nums \<and> nums ! a' + nums ! b' = target \<longrightarrow>
            a < a' \<or> (a = a' \<and> b \<le> b')"
      by blast
    have "\<forall>a' b'. i \<le> a' \<and> a' < b' \<and> b' < length nums \<and> nums ! a' + nums ! b' = target \<longrightarrow>
            a < a' \<or> (a = a' \<and> b \<le> b')"
    proof (intro allI impI)
      fix a' b'
      assume h: "i \<le> a' \<and> a' < b' \<and> b' < length nums \<and> nums ! a' + nums ! b' = target"
      with row have "a' \<noteq> i" by (metis Suc_leI)
      with h have "Suc i \<le> a'" by simp
      with h ab(6) show "a < a' \<or> (a = a' \<and> b \<le> b')" by blast
    qed
    with ab eq show ?thesis by (metis Suc_leD)
  next
    case (Some r)
    from bf_inner_Some [OF Some] obtain k where k:
      "r = [i, k]" "i + 1 \<le> k" "k < length nums" "nums ! i + nums ! k = target"
      "\<forall>k'. i + 1 \<le> k' \<and> k' < k \<longrightarrow> nums ! i + nums ! k' \<noteq> target"
      by blast
    have eq: "bf_outer nums target i = [i, k]"
      using inrange Some k(1) by (simp add: bf_outer.simps [of nums target i])
    have "\<forall>a' b'. i \<le> a' \<and> a' < b' \<and> b' < length nums \<and> nums ! a' + nums ! b' = target \<longrightarrow>
            i < a' \<or> (i = a' \<and> k \<le> b')"
    proof (intro allI impI)
      fix a' b'
      assume h: "i \<le> a' \<and> a' < b' \<and> b' < length nums \<and> nums ! a' + nums ! b' = target"
      show "i < a' \<or> (i = a' \<and> k \<le> b')"
      proof (cases "i = a'")
        case True
        with h k(5) have "\<not> b' < k" by (metis Suc_eq_plus1 Suc_leI)
        with True show ?thesis by simp
      next
        case False
        with h show ?thesis by simp
      qed
    qed
    with eq k show ?thesis by auto
  qed
qed

section \<open>Properties of the hash map scan\<close>

lemma hm_scan_append:
  "hm_scan m i (xs @ ys) target =
     (case hm_scan m i xs target of
        Inl r \<Rightarrow> Inl r
      | Inr m' \<Rightarrow> hm_scan m' (i + length xs) ys target)"
  by (induction xs arbitrary: m i) (auto simp: Let_def split: option.splits sum.splits)

lemma hm_scan_Inl_range:
  "hm_scan m i xs target = Inl r \<Longrightarrow> \<exists>p q. r = [p, q] \<and> i \<le> q \<and> q < i + length xs"
proof (induction xs arbitrary: m i)
  case Nil
  then show ?case by simp
next
  case (Cons x xs)
  show ?case
  proof (cases "m (target - x)")
    case None
    with Cons.prems have "hm_scan (m(x \<mapsto> i)) (Suc i) xs target = Inl r"
      by (simp add: Let_def)
    from Cons.IH [OF this] show ?thesis by auto
  next
    case (Some p)
    with Cons.prems show ?thesis by (auto simp: Let_def)
  qed
qed

lemma hm_scan_take_Suc:
  assumes "k < length xs"
  shows "hm_scan m i (take (Suc k) xs) target =
     (case hm_scan m i (take k xs) target of
        Inl r \<Rightarrow> Inl r
      | Inr m' \<Rightarrow>
          (case m' (target - xs ! k) of
             Some p \<Rightarrow> Inl [p, i + k]
           | None \<Rightarrow> Inr (m'(xs ! k \<mapsto> i + k))))"
proof -
  have "take (Suc k) xs = take k xs @ [xs ! k]"
    using assms by (simp add: take_Suc_conv_app_nth)
  then show ?thesis
    using assms by (simp add: hm_scan_append Let_def split: sum.splits option.splits)
qed

lemma hm_scan_split_at:
  assumes "k < length xs"
  shows "hm_scan m i xs target =
     (case hm_scan m i (take (Suc k) xs) target of
        Inl r \<Rightarrow> Inl r
      | Inr m' \<Rightarrow> hm_scan m' (i + Suc k) (drop (Suc k) xs) target)"
proof -
  have "hm_scan m i (take (Suc k) xs @ drop (Suc k) xs) target =
     (case hm_scan m i (take (Suc k) xs) target of
        Inl r \<Rightarrow> Inl r
      | Inr m' \<Rightarrow> hm_scan m' (i + length (take (Suc k) xs)) (drop (Suc k) xs) target)"
    by (rule hm_scan_append)
  moreover have "length (take (Suc k) xs) = Suc k"
    using assms by simp
  ultimately show ?thesis by (simp split: sum.splits)
qed

text \<open>The dictionary after a prefix: every value seen so far is bound to the last
  position where it was seen.\<close>

lemma hm_scan_Inr_last:
  assumes "hm_scan m i xs target = Inr m'"
    and "\<forall>v p. m v = Some p \<longrightarrow> p < i"
  shows "m' v = Some p \<longleftrightarrow>
     (if v \<in> set xs then i \<le> p \<and> p < i + length xs \<and> xs ! (p - i) = v \<and>
          (\<forall>p'. p < p' \<and> p' < i + length xs \<longrightarrow> xs ! (p' - i) \<noteq> v)
      else m v = Some p)"
  using assms
proof (induction xs arbitrary: m i)
  case Nil
  then show ?case by simp
next
  case (Cons x xs)
  from Cons.prems(1) have none: "m (target - x) = None"
    and rest: "hm_scan (m(x \<mapsto> i)) (Suc i) xs target = Inr m'"
    by (auto simp: Let_def split: option.splits)
  have bound: "\<forall>v p. (m(x \<mapsto> i)) v = Some p \<longrightarrow> p < Suc i"
    using Cons.prems(2) by (auto simp: less_Suc_eq)
  note IH = Cons.IH [OF rest bound]
  show ?case
  proof (cases "v \<in> set xs")
    case True
    have "m' v = Some p \<longleftrightarrow> Suc i \<le> p \<and> p < Suc i + length xs \<and> xs ! (p - Suc i) = v \<and>
          (\<forall>p'. p < p' \<and> p' < Suc i + length xs \<longrightarrow> xs ! (p' - Suc i) \<noteq> v)"
      using IH True by simp
    also have "\<dots> \<longleftrightarrow> i \<le> p \<and> p < i + length (x # xs) \<and> (x # xs) ! (p - i) = v \<and>
          (\<forall>p'. p < p' \<and> p' < i + length (x # xs) \<longrightarrow> (x # xs) ! (p' - i) \<noteq> v)"
    proof
      assume a: "Suc i \<le> p \<and> p < Suc i + length xs \<and> xs ! (p - Suc i) = v \<and>
          (\<forall>p'. p < p' \<and> p' < Suc i + length xs \<longrightarrow> xs ! (p' - Suc i) \<noteq> v)"
      then have "(x # xs) ! (p - i) = v"
        by (simp add: nth_Cons')
      moreover have "\<forall>p'. p < p' \<and> p' < i + length (x # xs) \<longrightarrow> (x # xs) ! (p' - i) \<noteq> v"
      proof (intro allI impI)
        fix p' assume "p < p' \<and> p' < i + length (x # xs)"
        with a have "xs ! (p' - Suc i) \<noteq> v" "i < p'" by auto
        then show "(x # xs) ! (p' - i) \<noteq> v" by (simp add: nth_Cons')
      qed
      ultimately show "i \<le> p \<and> p < i + length (x # xs) \<and> (x # xs) ! (p - i) = v \<and>
          (\<forall>p'. p < p' \<and> p' < i + length (x # xs) \<longrightarrow> (x # xs) ! (p' - i) \<noteq> v)"
        using a by simp
    next
      assume a: "i \<le> p \<and> p < i + length (x # xs) \<and> (x # xs) ! (p - i) = v \<and>
          (\<forall>p'. p < p' \<and> p' < i + length (x # xs) \<longrightarrow> (x # xs) ! (p' - i) \<noteq> v)"
      from True obtain k where k: "k < length xs" "xs ! k = v"
        by (auto simp: in_set_conv_nth)
      have "p \<noteq> i"
      proof
        assume "p = i"
        from a have "p < Suc i + k \<and> Suc i + k < i + length (x # xs) \<longrightarrow>
            (x # xs) ! (Suc i + k - i) \<noteq> v" by blast
        moreover have "Suc i + k - i = Suc k" by simp
        ultimately have "xs ! k \<noteq> v" using \<open>p = i\<close> k(1) by simp
        with k(2) show False by simp
      qed
      with a have pi: "Suc i \<le> p" by simp
      with a have "xs ! (p - Suc i) = v" by (simp add: nth_Cons')
      moreover have "\<forall>p'. p < p' \<and> p' < Suc i + length xs \<longrightarrow> xs ! (p' - Suc i) \<noteq> v"
      proof (intro allI impI)
        fix p' assume h: "p < p' \<and> p' < Suc i + length xs"
        then have "p' < i + length (x # xs)" by simp
        with a h have "(x # xs) ! (p' - i) \<noteq> v" by blast
        with h pi show "xs ! (p' - Suc i) \<noteq> v" by (simp add: nth_Cons')
      qed
      ultimately show "Suc i \<le> p \<and> p < Suc i + length xs \<and> xs ! (p - Suc i) = v \<and>
          (\<forall>p'. p < p' \<and> p' < Suc i + length xs \<longrightarrow> xs ! (p' - Suc i) \<noteq> v)"
        using a pi by simp
    qed
    finally show ?thesis using True by simp
  next
    case False
    then have m': "m' v = Some p \<longleftrightarrow> (m(x \<mapsto> i)) v = Some p"
      using IH by simp
    show ?thesis
    proof (cases "v = x")
      case True
      have "(\<forall>p'. p < p' \<and> p' < i + length (x # xs) \<longrightarrow> (x # xs) ! (p' - i) \<noteq> x) \<and> i \<le> p \<and> (x # xs) ! (p - i) = x
         \<and> p < i + length (x # xs) \<longleftrightarrow> p = i"
      proof
        assume a: "(\<forall>p'. p < p' \<and> p' < i + length (x # xs) \<longrightarrow> (x # xs) ! (p' - i) \<noteq> x) \<and> i \<le> p \<and> (x # xs) ! (p - i) = x
         \<and> p < i + length (x # xs)"
        show "p = i"
        proof (rule ccontr)
          assume "p \<noteq> i"
          with a have "Suc i \<le> p" "p - Suc i < length xs" by auto
          moreover from this a have "xs ! (p - Suc i) = x" by (simp add: nth_Cons')
          ultimately have "x \<in> set xs" by (metis nth_mem)
          with False True show False by simp
        qed
      next
        assume "p = i"
        moreover have "\<forall>p'. i < p' \<and> p' < i + length (x # xs) \<longrightarrow> (x # xs) ! (p' - i) \<noteq> x"
        proof (intro allI impI)
          fix p' assume h: "i < p' \<and> p' < i + length (x # xs)"
          then have "p' - Suc i < length xs" by auto
          then have "xs ! (p' - Suc i) \<in> set xs" by simp
          with False True have "xs ! (p' - Suc i) \<noteq> x" by metis
          with h show "(x # xs) ! (p' - i) \<noteq> x" by (simp add: nth_Cons')
        qed
        ultimately show "(\<forall>p'. p < p' \<and> p' < i + length (x # xs) \<longrightarrow> (x # xs) ! (p' - i) \<noteq> x) \<and> i \<le> p \<and> (x # xs) ! (p - i) = x
         \<and> p < i + length (x # xs)" by simp
      qed
      with m' True show ?thesis by auto
    next
      case neq: False
      with m' False show ?thesis by simp
    qed
  qed
qed

lemma hm_scan_Inr_dom:
  "hm_scan m i xs target = Inr m' \<Longrightarrow> dom m' = dom m \<union> set xs"
proof (induction xs arbitrary: m i)
  case Nil
  then show ?case by simp
next
  case (Cons x xs)
  from Cons.prems have "hm_scan (m(x \<mapsto> i)) (Suc i) xs target = Inr m'"
    by (auto simp: Let_def split: option.splits)
  from Cons.IH [OF this] show ?case by auto
qed

lemma hm_scan_Inl_at:
  "hm_scan m i xs target = Inl r \<Longrightarrow>
     \<exists>k m' p. k < length xs \<and> hm_scan m i (take k xs) target = Inr m' \<and>
        m' (target - xs ! k) = Some p \<and> r = [p, i + k]"
proof (induction xs arbitrary: m i)
  case Nil
  then show ?case by simp
next
  case (Cons x xs)
  show ?case
  proof (cases "m (target - x)")
    case (Some p)
    with Cons.prems have "r = [p, i + 0]" by (simp add: Let_def)
    moreover have "hm_scan m i (take 0 (x # xs)) target = Inr m" by simp
    moreover have "m (target - (x # xs) ! 0) = Some p" using Some by simp
    ultimately show ?thesis by blast
  next
    case None
    with Cons.prems have "hm_scan (m(x \<mapsto> i)) (Suc i) xs target = Inl r"
      by (simp add: Let_def)
    from Cons.IH [OF this] obtain k m' p where k: "k < length xs"
      "hm_scan (m(x \<mapsto> i)) (Suc i) (take k xs) target = Inr m'"
      "m' (target - xs ! k) = Some p" "r = [p, Suc i + k]"
      by blast
    have "hm_scan m i (take (Suc k) (x # xs)) target = Inr m'"
      using None k(2) by (simp add: Let_def)
    moreover have "m' (target - (x # xs) ! Suc k) = Some p"
      using k(3) by simp
    moreover have "r = [p, i + Suc k]" "Suc k < length (x # xs)"
      using k(1,4) by simp_all
    ultimately show ?thesis by blast
  qed
qed

lemma hm_scan_prefix_Inr:
  assumes "hm_scan m i (take k xs) target = Inr m'" and "k' < k" and "k \<le> length xs"
  shows "\<exists>m''. hm_scan m i (take k' xs) target = Inr m'' \<and> m'' (target - xs ! k') = None"
proof -
  let ?ys = "take k xs"
  have len: "k' < length ?ys" using assms(2,3) by simp
  have tk: "take k' ?ys = take k' xs" using assms(2) by (simp add: min_def)
  have nth: "?ys ! k' = xs ! k'" using assms(2) by simp
  from hm_scan_split_at [OF len, of m i target] assms(1)
  obtain m1 where m1: "hm_scan m i (take (Suc k') ?ys) target = Inr m1"
    by (auto split: sum.splits)
  from hm_scan_take_Suc [OF len, of m i target] m1
  obtain m2 where "hm_scan m i (take k' ?ys) target = Inr m2"
    and "m2 (target - ?ys ! k') = None"
    by (auto split: sum.splits option.splits)
  with tk nth show ?thesis by auto
qed

text \<open>The state of the dictionary at iteration \<open>k\<close>, when the loop gets there.\<close>

lemma num_map_at_last_seen:
  assumes "num_map_at nums target k = Some m" and "k \<le> length nums"
  shows "m v = Some p \<longleftrightarrow>
     p < k \<and> nums ! p = v \<and> (\<forall>p'. p < p' \<and> p' < k \<longrightarrow> nums ! p' \<noteq> v)"
proof -
  let ?xs = "take k nums"
  from assms(1) have scan: "hm_scan Map.empty 0 ?xs target = Inr m"
    by (simp add: num_map_at_def split: sum.splits)
  have len: "length ?xs = k" using assms(2) by simp
  have "m v = Some p \<longleftrightarrow>
     (if v \<in> set ?xs then 0 \<le> p \<and> p < 0 + length ?xs \<and> ?xs ! (p - 0) = v \<and>
          (\<forall>p'. p < p' \<and> p' < 0 + length ?xs \<longrightarrow> ?xs ! (p' - 0) \<noteq> v)
      else Map.empty v = Some p)"
    by (rule hm_scan_Inr_last [OF scan]) simp
  also have "\<dots> \<longleftrightarrow> (v \<in> set ?xs \<and> p < k \<and> nums ! p = v \<and>
          (\<forall>p'. p < p' \<and> p' < k \<longrightarrow> nums ! p' \<noteq> v))"
    using len by auto
  also have "\<dots> \<longleftrightarrow> (p < k \<and> nums ! p = v \<and> (\<forall>p'. p < p' \<and> p' < k \<longrightarrow> nums ! p' \<noteq> v))"
  proof -
    have "p < k \<and> nums ! p = v \<Longrightarrow> v \<in> set ?xs"
      using len by (metis nth_mem nth_take)
    then show ?thesis by blast
  qed
  finally show ?thesis .
qed

lemma num_map_at_dom:
  assumes "num_map_at nums target k = Some m" and "k \<le> length nums"
  shows "m v = None \<longleftrightarrow> (\<forall>p<k. nums ! p \<noteq> v)"
proof -
  from assms(1) have scan: "hm_scan Map.empty 0 (take k nums) target = Inr m"
    by (simp add: num_map_at_def split: sum.splits)
  from hm_scan_Inr_dom [OF scan] have "dom m = set (take k nums)" by simp
  then have "m v = None \<longleftrightarrow> v \<notin> set (take k nums)" by (metis domIff)
  also have "\<dots> \<longleftrightarrow> (\<forall>p<k. nums ! p \<noteq> v)"
    using assms(2) by (auto simp: in_set_conv_nth)
  finally show ?thesis .
qed

lemma num_map_at_Suc:
  assumes "num_map_at nums target k = Some m" and "k < length nums"
    and "m (target - nums ! k) = None"
  shows "num_map_at nums target (Suc k) = Some (m(nums ! k \<mapsto> k))"
proof -
  from assms(1) have scan: "hm_scan Map.empty 0 (take k nums) target = Inr m"
    by (simp add: num_map_at_def split: sum.splits)
  show ?thesis
    using hm_scan_take_Suc [OF assms(2), of Map.empty 0 target] scan assms(3)
    by (simp add: num_map_at_def)
qed

lemma hash_map_returns_at:
  assumes "two_sum_hash_map nums target \<noteq> []"
  shows "\<exists>p q m. two_sum_hash_map nums target = [p, q] \<and> q < length nums \<and>
     num_map_at nums target q = Some m \<and> m (target - nums ! q) = Some p \<and>
     (\<forall>k<q. \<exists>m'. num_map_at nums target k = Some m' \<and> m' (target - nums ! k) = None)"
proof -
  from assms obtain r where r: "hm_scan Map.empty 0 nums target = Inl r"
    and res: "two_sum_hash_map nums target = r"
    by (auto simp: two_sum_hash_map_def split: sum.splits)
  from hm_scan_Inl_at [OF r] obtain q m p where q: "q < length nums"
    "hm_scan Map.empty 0 (take q nums) target = Inr m"
    "m (target - nums ! q) = Some p" "r = [p, q]"
    by auto
  have at: "num_map_at nums target q = Some m"
    using q(2) by (simp add: num_map_at_def)
  have "\<forall>k<q. \<exists>m'. num_map_at nums target k = Some m' \<and> m' (target - nums ! k) = None"
  proof (intro allI impI)
    fix k assume "k < q"
    from hm_scan_prefix_Inr [OF q(2) this] q(1)
    show "\<exists>m'. num_map_at nums target k = Some m' \<and> m' (target - nums ! k) = None"
      by (auto simp: num_map_at_def)
  qed
  with res q at show ?thesis by blast
qed

lemma hash_map_Nil_num_map:
  assumes "two_sum_hash_map nums target = []" and "k \<le> length nums"
  shows "\<exists>m. num_map_at nums target k = Some m \<and>
     (k < length nums \<longrightarrow> m (target - nums ! k) = None)"
proof -
  from assms(1) obtain m where m: "hm_scan Map.empty 0 nums target = Inr m"
    by (auto simp: two_sum_hash_map_def split: sum.splits dest: hm_scan_Inl_range)
  show ?thesis
  proof (cases "k < length nums")
    case True
    have "hm_scan Map.empty 0 (take (length nums) nums) target = Inr m"
      using m by simp
    from hm_scan_prefix_Inr [OF this True] show ?thesis
      by (auto simp: num_map_at_def)
  next
    case False
    with assms(2) m show ?thesis by (simp add: num_map_at_def)
  qed
qed

text \<open>Soundness and completeness of the hash map scan.\<close>

lemma hash_map_pair:
  assumes "two_sum_hash_map nums target \<noteq> []"
  shows "\<exists>p q. two_sum_hash_map nums target = [p, q] \<and> p < q \<and> q < length nums \<and>
     nums ! p + nums ! q = target \<and>
     (\<forall>p'. p < p' \<and> p' < q \<longrightarrow> nums ! p' + nums ! q \<noteq> target) \<and>
     (\<forall>p' q'. p' < q' \<and> q' < q \<longrightarrow> nums ! p' + nums ! q' \<noteq> target)"
proof -
  from hash_map_returns_at [OF assms] obtain p q m where pq:
    "two_sum_hash_map nums target = [p, q]" "q < length nums"
    "num_map_at nums target q = Some m" "m (target - nums ! q) = Some p"
    "\<forall>k<q. \<exists>m'. num_map_at nums target k = Some m' \<and> m' (target - nums ! k) = None"
    by blast
  from pq(2) have qle: "q \<le> length nums" by simp
  from num_map_at_last_seen [OF pq(3) qle, of "target - nums ! q" p] pq(4)
  have last: "p < q" "nums ! p = target - nums ! q"
    "\<forall>p'. p < p' \<and> p' < q \<longrightarrow> nums ! p' \<noteq> target - nums ! q"
    by auto
  have "\<forall>p' q'. p' < q' \<and> q' < q \<longrightarrow> nums ! p' + nums ! q' \<noteq> target"
  proof (intro allI impI)
    fix p' q' assume h: "p' < q' \<and> q' < q"
    with pq(5) obtain m' where m': "num_map_at nums target q' = Some m'"
      "m' (target - nums ! q') = None" by blast
    from h pq(2) have "q' \<le> length nums" by simp
    from num_map_at_dom [OF m'(1) this, of "target - nums ! q'"] m'(2) h
    have "nums ! p' \<noteq> target - nums ! q'" by blast
    then show "nums ! p' + nums ! q' \<noteq> target" by arith
  qed
  moreover have "\<forall>p'. p < p' \<and> p' < q \<longrightarrow> nums ! p' + nums ! q \<noteq> target"
    using last(3) by (metis add_diff_cancel_right')
  moreover have "nums ! p + nums ! q = target" using last(2) by simp
  ultimately show ?thesis using pq(1,2) last(1) by blast
qed

lemma hash_map_Nil:
  assumes "two_sum_hash_map nums target = []"
  shows "\<forall>p q. p < q \<and> q < length nums \<longrightarrow> nums ! p + nums ! q \<noteq> target"
proof (intro allI impI)
  fix p q assume h: "p < q \<and> q < length nums"
  then have "q \<le> length nums" by simp
  from hash_map_Nil_num_map [OF assms this] h obtain m where
    m: "num_map_at nums target q = Some m" "m (target - nums ! q) = None"
    by auto
  from num_map_at_dom [OF m(1) \<open>q \<le> length nums\<close>, of "target - nums ! q"] m(2) h
  have "nums ! p \<noteq> target - nums ! q" by blast
  then show "nums ! p + nums ! q \<noteq> target" by arith
qed

section \<open>Properties of the two pointer loop\<close>

lemma py_index_in_range:
  "0 \<le> k \<Longrightarrow> k < int (length xs) \<Longrightarrow> py_index xs k = Inr (xs ! nat k)"
  by (simp add: py_index_def)

lemma tp_body_in_range:
  assumes "0 \<le> left" and "left < right" and "right < int (length xs)"
  shows "tp_body xs target left right =
     (if fst (xs ! nat left) + fst (xs ! nat right) = target
        then Return [snd (xs ! nat left), snd (xs ! nat right)]
      else if fst (xs ! nat left) + fst (xs ! nat right) < target
        then Continue (left + 1) right
      else Continue left (right - 1))"
proof -
  have "py_index xs left = Inr (xs ! nat left)"
    using assms by (intro py_index_in_range) auto
  moreover have "py_index xs right = Inr (xs ! nat right)"
    using assms by (intro py_index_in_range) auto
  ultimately show ?thesis by (simp add: tp_body_def Let_def)
qed

lemma tp_loop_no_raise:
  "0 \<le> left \<Longrightarrow> right < int (length xs) \<Longrightarrow> tp_loop xs target left right \<noteq> Inl e"
proof (induction xs target left right rule: tp_loop.induct)
  case (1 xs target left right)
  show ?case
  proof (cases "left < right")
    case False
    then show ?thesis by (simp add: tp_loop.simps [of xs target left right])
  next
    case True
    note body = tp_body_in_range [OF "1.prems"(1) True "1.prems"(2), of target]
    consider (eq) "fst (xs ! nat left) + fst (xs ! nat right) = target"
      | (lt) "fst (xs ! nat left) + fst (xs ! nat right) < target"
      | (gt) "fst (xs ! nat left) + fst (xs ! nat right) > target"
      by linarith
    then show ?thesis
    proof cases
      case eq
      with True body show ?thesis by (simp add: tp_loop.simps [of xs target left right])
    next
      case lt
      with body have b: "tp_body xs target left right = Continue (left + 1) right" by simp
      have "tp_loop xs target (left + 1) right \<noteq> Inl e"
        using "1.IH" [OF True b] "1.prems" by simp
      with True b show ?thesis by (simp add: tp_loop.simps [of xs target left right])
    next
      case gt
      with body have b: "tp_body xs target left right = Continue left (right - 1)" by simp
      have "tp_loop xs target left (right - 1) \<noteq> Inl e"
        using "1.IH" [OF True b] "1.prems" by simp
      with True b show ?thesis by (simp add: tp_loop.simps [of xs target left right])
    qed
  qed
qed

lemma tp_loop_sound:
  "0 \<le> left \<Longrightarrow> right < int (length xs) \<Longrightarrow> tp_loop xs target left right = Inr res \<Longrightarrow>
   res \<noteq> [] \<Longrightarrow>
     \<exists>a b. left \<le> a \<and> a < b \<and> b \<le> right \<and>
        res = [snd (xs ! nat a), snd (xs ! nat b)] \<and>
        fst (xs ! nat a) + fst (xs ! nat b) = target"
proof (induction xs target left right rule: tp_loop.induct)
  case (1 xs target left right)
  from "1.prems"(3,4) have True: "left < right"
    by (simp add: tp_loop.simps [of xs target left right] split: if_splits)
  note body = tp_body_in_range [OF "1.prems"(1) True "1.prems"(2), of target]
  consider (eq) "fst (xs ! nat left) + fst (xs ! nat right) = target"
    | (lt) "fst (xs ! nat left) + fst (xs ! nat right) < target"
    | (gt) "fst (xs ! nat left) + fst (xs ! nat right) > target"
    by linarith
  then show ?case
  proof cases
    case eq
    with True body "1.prems"(3) have "res = [snd (xs ! nat left), snd (xs ! nat right)]"
      by (simp add: tp_loop.simps [of xs target left right])
    with eq True show ?thesis by (metis order_refl)
  next
    case lt
    with body have b: "tp_body xs target left right = Continue (left + 1) right" by simp
    with True "1.prems"(3) have "tp_loop xs target (left + 1) right = Inr res"
      by (simp add: tp_loop.simps [of xs target left right])
    from "1.IH" [OF True b _ "1.prems"(2) this "1.prems"(4)] "1.prems"(1)
    obtain a b where "left + 1 \<le> a \<and> a < b \<and> b \<le> right \<and>
        res = [snd (xs ! nat a), snd (xs ! nat b)] \<and>
        fst (xs ! nat a) + fst (xs ! nat b) = target"
      by auto
    then have "left \<le> a \<and> a < b \<and> b \<le> right \<and>
        res = [snd (xs ! nat a), snd (xs ! nat b)] \<and>
        fst (xs ! nat a) + fst (xs ! nat b) = target"
      by simp
    then show ?thesis by blast
  next
    case gt
    with body have b: "tp_body xs target left right = Continue left (right - 1)" by simp
    with True "1.prems"(3) have "tp_loop xs target left (right - 1) = Inr res"
      by (simp add: tp_loop.simps [of xs target left right])
    from "1.IH" [OF True b "1.prems"(1) _ this "1.prems"(4)] "1.prems"(2)
    obtain a b where "left \<le> a \<and> a < b \<and> b \<le> right - 1 \<and>
        res = [snd (xs ! nat a), snd (xs ! nat b)] \<and>
        fst (xs ! nat a) + fst (xs ! nat b) = target"
      by auto
    then have "left \<le> a \<and> a < b \<and> b \<le> right \<and>
        res = [snd (xs ! nat a), snd (xs ! nat b)] \<and>
        fst (xs ! nat a) + fst (xs ! nat b) = target"
      by simp
    then show ?thesis by blast
  qed
qed

lemma sorted_fst_nth_mono:
  assumes "sorted (map fst xs)" and "0 \<le> a" and "a \<le> b" and "b < int (length xs)"
  shows "fst (xs ! nat a) \<le> fst (xs ! nat b)"
proof -
  have "nat a \<le> nat b" "nat b < length (map fst xs)"
    using assms by auto
  with assms(1) have "map fst xs ! nat a \<le> map fst xs ! nat b"
    by (rule sorted_nth_mono)
  then show ?thesis using assms by simp
qed

lemma tp_loop_complete:
  "sorted (map fst xs) \<Longrightarrow> 0 \<le> left \<Longrightarrow> right < int (length xs) \<Longrightarrow>
   tp_loop xs target left right = Inr [] \<Longrightarrow>
     \<forall>a b. left \<le> a \<and> a < b \<and> b \<le> right \<longrightarrow>
        fst (xs ! nat a) + fst (xs ! nat b) \<noteq> target"
proof (induction xs target left right rule: tp_loop.induct)
  case (1 xs target left right)
  show ?case
  proof (cases "left < right")
    case False
    then show ?thesis by auto
  next
    case True
    note body = tp_body_in_range [OF "1.prems"(2) True "1.prems"(3), of target]
    consider (eq) "fst (xs ! nat left) + fst (xs ! nat right) = target"
      | (lt) "fst (xs ! nat left) + fst (xs ! nat right) < target"
      | (gt) "fst (xs ! nat left) + fst (xs ! nat right) > target"
      by linarith
    then show ?thesis
    proof cases
      case eq
      with True body "1.prems"(4) show ?thesis
        by (simp add: tp_loop.simps [of xs target left right])
    next
      case lt
      with body have b: "tp_body xs target left right = Continue (left + 1) right" by simp
      with True "1.prems"(4) have "tp_loop xs target (left + 1) right = Inr []"
        by (simp add: tp_loop.simps [of xs target left right])
      from "1.IH" [OF True b "1.prems"(1) _ "1.prems"(3) this] "1.prems"(2)
      have IH: "\<forall>a b. left + 1 \<le> a \<and> a < b \<and> b \<le> right \<longrightarrow>
          fst (xs ! nat a) + fst (xs ! nat b) \<noteq> target"
        by simp
      show ?thesis
      proof (intro allI impI)
        fix a b assume h: "left \<le> a \<and> a < b \<and> b \<le> right"
        show "fst (xs ! nat a) + fst (xs ! nat b) \<noteq> target"
        proof (cases "a = left")
          case False
          with h IH show ?thesis by simp
        next
          case a: True
          have "fst (xs ! nat b) \<le> fst (xs ! nat right)"
            using "1.prems"(1) h "1.prems"(2,3) by (intro sorted_fst_nth_mono) auto
          with lt a show ?thesis by simp
        qed
      qed
    next
      case gt
      with body have b: "tp_body xs target left right = Continue left (right - 1)" by simp
      with True "1.prems"(4) have "tp_loop xs target left (right - 1) = Inr []"
        by (simp add: tp_loop.simps [of xs target left right])
      from "1.IH" [OF True b "1.prems"(1,2) _ this] "1.prems"(3)
      have IH: "\<forall>a b. left \<le> a \<and> a < b \<and> b \<le> right - 1 \<longrightarrow>
          fst (xs ! nat a) + fst (xs ! nat b) \<noteq> target"
        by simp
      show ?thesis
      proof (intro allI impI)
        fix a b assume h: "left \<le> a \<and> a < b \<and> b \<le> right"
        show "fst (xs ! nat a) + fst (xs ! nat b) \<noteq> target"
        proof (cases "b = right")
          case False
          with h IH show ?thesis by simp
        next
          case b: True
          have "fst (xs ! nat left) \<le> fst (xs ! nat a)"
            using "1.prems"(1) h "1.prems"(2,3) by (intro sorted_fst_nth_mono) auto
          with gt b show ?thesis by simp
        qed
      qed
    qed
  qed
qed

text \<open>The list of (value, original index) pairs, and its sorted copy.\<close>

lemma indexed_nums_eq:
  "map (\<lambda>(idx, num). (num, idx)) (enumerate 0 nums) = map (\<lambda>i. (nums ! i, i)) [0..<length nums]"
  by (rule nth_equalityI) (simp_all add: nth_enumerate_eq)

lemma sorted_indexed_props:
  fixes nums :: "int list"
  defines "xs \<equiv> sort_key fst (map (\<lambda>(idx, num). (num, idx)) (enumerate 0 nums))"
  shows "length xs = length nums"
    and "sorted (map fst xs)"
    and "set xs = {(nums ! i, i) | i. i < length nums}"
    and "distinct (map snd xs)"
proof -
  let ?ys = "map (\<lambda>i. (nums ! i, i)) [0..<length nums]"
  have xs: "xs = sort_key fst ?ys"
    by (simp add: xs_def indexed_nums_eq)
  show "length xs = length nums" by (simp add: xs)
  show "sorted (map fst xs)" by (simp add: xs)
  show set: "set xs = {(nums ! i, i) | i. i < length nums}"
    by (auto simp: xs)
  have "distinct xs"
    by (simp add: xs distinct_map inj_on_def)
  moreover have "inj_on snd (set xs)"
    by (auto simp: set inj_on_def)
  ultimately show "distinct (map snd xs)"
    by (simp add: distinct_map)
qed

lemma two_pointers_unfold:
  "two_sum_two_pointers nums target =
     tp_loop (sort_key fst (map (\<lambda>(idx, num). (num, idx)) (enumerate 0 nums))) target 0
       (int (length nums) - 1)"
  by (simp add: two_sum_two_pointers_def Let_def)

lemma two_pointers_no_raise: "two_sum_two_pointers nums target \<noteq> Inl e"
  unfolding two_pointers_unfold
  by (rule tp_loop_no_raise) (simp_all add: sorted_indexed_props(1))

lemma two_pointers_pair:
  assumes "two_sum_two_pointers nums target = Inr res" and "res \<noteq> []"
  shows "\<exists>i j. res = [i, j] \<and> i \<noteq> j \<and> i < length nums \<and> j < length nums \<and>
     nums ! i + nums ! j = target"
proof -
  define xs where "xs = sort_key fst (map (\<lambda>(idx, num). (num, idx)) (enumerate 0 nums))"
  note props = sorted_indexed_props [of nums, folded xs_def]
  from assms(1) have loop: "tp_loop xs target 0 (int (length nums) - 1) = Inr res"
    by (simp add: two_pointers_unfold xs_def)
  have "int (length nums) - 1 < int (length xs)" by (simp add: props(1))
  from tp_loop_sound [OF _ this loop assms(2)]
  obtain a b where ab: "0 \<le> a" "a < b" "b \<le> int (length nums) - 1"
    "res = [snd (xs ! nat a), snd (xs ! nat b)]"
    "fst (xs ! nat a) + fst (xs ! nat b) = target"
    by auto
  have na: "nat a < length xs" and nb: "nat b < length xs" and neq: "nat a \<noteq> nat b"
    using ab(1-3) by (auto simp: props(1))
  from na have "xs ! nat a \<in> set xs" by simp
  then obtain i where i: "xs ! nat a = (nums ! i, i)" "i < length nums"
    by (auto simp: props(3))
  from nb have "xs ! nat b \<in> set xs" by simp
  then obtain j where j: "xs ! nat b = (nums ! j, j)" "j < length nums"
    by (auto simp: props(3))
  have "map snd xs ! nat a \<noteq> map snd xs ! nat b"
  proof -
    have "nat a < length (map snd xs)" "nat b < length (map snd xs)"
      using na nb by simp_all
    with props(4) neq show ?thesis
      by (metis nth_eq_iff_index_eq)
  qed
  with na nb i j have "i \<noteq> j" by simp
  with ab(4,5) i j show ?thesis by simp
qed

lemma two_pointers_Nil:
  assumes "two_sum_two_pointers nums target = Inr []"
  shows "\<forall>i j. i \<noteq> j \<and> i < length nums \<and> j < length nums \<longrightarrow> nums ! i + nums ! j \<noteq> target"
proof (intro allI impI)
  fix i j assume h: "i \<noteq> j \<and> i < length nums \<and> j < length nums"
  define xs where "xs = sort_key fst (map (\<lambda>(idx, num). (num, idx)) (enumerate 0 nums))"
  note props = sorted_indexed_props [of nums, folded xs_def]
  from assms have loop: "tp_loop xs target 0 (int (length nums) - 1) = Inr []"
    by (simp add: two_pointers_unfold xs_def)
  have "int (length nums) - 1 < int (length xs)" by (simp add: props(1))
  from tp_loop_complete [OF props(2) _ this loop]
  have none: "\<forall>a b. 0 \<le> a \<and> a < b \<and> b \<le> int (length nums) - 1 \<longrightarrow>
        fst (xs ! nat a) + fst (xs ! nat b) \<noteq> target"
    by simp
  from h have "(nums ! i, i) \<in> set xs" by (auto simp: props(3))
  then obtain a where a: "a < length xs" "xs ! a = (nums ! i, i)"
    by (auto simp: in_set_conv_nth)
  from h have "(nums ! j, j) \<in> set xs" by (auto simp: props(3))
  then obtain b where b: "b < length xs" "xs ! b = (nums ! j, j)"
    by (auto simp: in_set_conv_nth)
  from a b h have "a \<noteq> b" by auto
  then consider "a < b" | "b < a" by linarith
  then show "nums ! i + nums ! j \<noteq> target"
  proof cases
    case 1
    with none [rule_format, of "int a" "int b"] a b show ?thesis
      by (simp add: props(1))
  next
    case 2
    with none [rule_format, of "int b" "int a"] a b show ?thesis
      by (simp add: props(1) add.commute)
  qed
qed

lemma two_pointers_shape:
  "two_sum_two_pointers nums target = Inr [] \<or>
   (\<exists>i j. two_sum_two_pointers nums target = Inr [i, j])"
proof (cases "two_sum_two_pointers nums target")
  case (Inl e)
  then show ?thesis by (simp add: two_pointers_no_raise)
next
  case (Inr res)
  then show ?thesis using two_pointers_pair [OF Inr] by (cases "res = []") auto
qed

section \<open>The three functions against the contract\<close>

lemma brute_force_pair:
  assumes "two_sum_brute_force nums target \<noteq> []"
  shows "\<exists>i j. two_sum_brute_force nums target = [i, j] \<and> i < j \<and> j < length nums \<and>
     nums ! i + nums ! j = target \<and>
     (\<forall>i' j'. i' < j' \<and> j' < length nums \<and> nums ! i' + nums ! j' = target \<longrightarrow>
        i < i' \<or> (i = i' \<and> j \<le> j'))"
  using bf_outer_pair [of nums target 0] assms
  by (simp add: two_sum_brute_force_def)

lemma brute_force_Nil:
  assumes "two_sum_brute_force nums target = []"
  shows "\<forall>i j. i < j \<and> j < length nums \<longrightarrow> nums ! i + nums ! j \<noteq> target"
  using bf_outer_Nil_iff [of nums target 0] assms
  by (simp add: two_sum_brute_force_def)

text \<open>A pair of distinct positions can be named in increasing order.\<close>

lemma ordered_pair_cases:
  fixes nums :: "int list"
  assumes "i \<noteq> j" and "i < length nums" and "j < length nums"
    and "nums ! i + nums ! j = target"
  obtains a b where "a < b" and "b < length nums" and "nums ! a + nums ! b = target"
    and "{a, b} = {i, j}"
proof (cases "i < j")
  case True
  with assms that [of i j] show ?thesis by simp
next
  case False
  with assms that [of j i] show ?thesis by (simp add: add.commute insert_commute)
qed

text \<open>
  Claim C1 (soundness of every variant): whenever \<open>two_sum_brute_force\<close>,
  \<open>two_sum_hash_map\<close> or \<open>two_sum_two_pointers\<close> returns a non-empty result, the result
  is a list \<open>[i, j]\<close> of two different positions of the input list as it was given, and
  the values at these positions add up to the target.
\<close>

theorem two_sum_sound:
  assumes "two_sum_brute_force nums target = r \<or> two_sum_hash_map nums target = r \<or>
      two_sum_two_pointers nums target = Inr r"
    and "r \<noteq> []"
  shows "\<exists>i j. r = [i, j] \<and> i \<noteq> j \<and> i < length nums \<and> j < length nums \<and>
      nums ! i + nums ! j = target"
proof -
  from assms(1) consider (bf) "two_sum_brute_force nums target = r"
    | (hm) "two_sum_hash_map nums target = r"
    | (tp) "two_sum_two_pointers nums target = Inr r"
    by blast
  then show ?thesis
  proof cases
    case bf
    with assms(2) brute_force_pair [of nums target]
    obtain i j where "r = [i, j]" "i < j" "j < length nums" "nums ! i + nums ! j = target"
      by auto
    moreover from this have "i \<noteq> j" "i < length nums" by simp_all
    ultimately show ?thesis by blast
  next
    case hm
    with assms(2) hash_map_pair [of nums target]
    obtain i j where "r = [i, j]" "i < j" "j < length nums" "nums ! i + nums ! j = target"
      by auto
    moreover from this have "i \<noteq> j" "i < length nums" by simp_all
    ultimately show ?thesis by blast
  next
    case tp
    from two_pointers_pair [OF tp assms(2)] show ?thesis .
  qed
qed

theorem two_sum_sound_witness:
  "two_sum_brute_force [3, 2, 4] 6 = [1, 2] \<and> two_sum_hash_map [3, 2, 4] 6 = [1, 2] \<and>
   two_sum_two_pointers [3, 2, 4] 6 = Inr [1, 2] \<and>
   (\<exists>i j. [1, 2] = [i, j] \<and> i \<noteq> j \<and> i < length [3, 2, 4 :: int] \<and> j < length [3, 2, 4 :: int] \<and>
      [3, 2, 4] ! i + [3, 2, 4] ! j = (6 :: int))"
proof -
  have bf: "two_sum_brute_force [3, 2, 4] 6 = [1, 2]" by code_simp
  have hm: "two_sum_hash_map [3, 2, 4] 6 = [1, 2]" by code_simp
  have tp: "two_sum_two_pointers [3, 2, 4] 6 = Inr [1, 2]" by code_simp
  have "[1, 2] \<noteq> ([] :: nat list)" by simp
  with two_sum_sound [of "[3, 2, 4]" 6 "[1, 2]"] bf
  have "\<exists>i j. [1, 2] = [i, j] \<and> i \<noteq> j \<and> i < length [3, 2, 4 :: int] \<and> j < length [3, 2, 4 :: int] \<and>
      [3, 2, 4] ! i + [3, 2, 4] ! j = (6 :: int)"
    by blast
  with bf hm tp show ?thesis by blast
qed

text \<open>
  Claim C2 (completeness of every variant): when one of the three functions returns the
  empty list, no two different positions of the input hold values that add up to the
  target; and on a list of length 0 or 1 every one of them returns the empty list.
\<close>

theorem two_sum_complete:
  "(two_sum_brute_force nums target = [] \<or> two_sum_hash_map nums target = [] \<or>
      two_sum_two_pointers nums target = Inr [] \<longrightarrow>
    \<not> (\<exists>i j. i \<noteq> j \<and> i < length nums \<and> j < length nums \<and> nums ! i + nums ! j = target)) \<and>
   (length nums \<le> 1 \<longrightarrow>
      two_sum_brute_force nums target = [] \<and> two_sum_hash_map nums target = [] \<and>
      two_sum_two_pointers nums target = Inr [])"
proof (intro conjI impI)
  assume empty: "two_sum_brute_force nums target = [] \<or> two_sum_hash_map nums target = [] \<or>
      two_sum_two_pointers nums target = Inr []"
  show "\<not> (\<exists>i j. i \<noteq> j \<and> i < length nums \<and> j < length nums \<and> nums ! i + nums ! j = target)"
  proof
    assume "\<exists>i j. i \<noteq> j \<and> i < length nums \<and> j < length nums \<and> nums ! i + nums ! j = target"
    then obtain i j where ij: "i \<noteq> j" "i < length nums" "j < length nums"
      "nums ! i + nums ! j = target" by blast
    then obtain a b where ab: "a < b" "b < length nums" "nums ! a + nums ! b = target"
      by (rule ordered_pair_cases)
    from empty consider (bf) "two_sum_brute_force nums target = []"
      | (hm) "two_sum_hash_map nums target = []"
      | (tp) "two_sum_two_pointers nums target = Inr []"
      by blast
    then show False
    proof cases
      case bf
      from brute_force_Nil [OF bf] ab show False by blast
    next
      case hm
      from hash_map_Nil [OF hm] ab show False by blast
    next
      case tp
      from two_pointers_Nil [OF tp] ij show False by blast
    qed
  qed
next
  assume short: "length nums \<le> 1"
  have no: "\<not> (\<exists>i j :: nat. i \<noteq> j \<and> i < length nums \<and> j < length nums)"
    using short by auto
  show "two_sum_brute_force nums target = []"
    using brute_force_pair [of nums target] no by (metis less_trans nat_neq_iff)
  show "two_sum_hash_map nums target = []"
    using hash_map_pair [of nums target] no by (metis less_trans nat_neq_iff)
  show "two_sum_two_pointers nums target = Inr []"
    using two_pointers_shape [of nums target] two_pointers_pair [of nums target] no
    by (metis list.distinct(1))
qed

theorem two_sum_complete_witness:
  "two_sum_brute_force [1, 2, 3] 7 = [] \<and> two_sum_hash_map [1, 2, 3] 7 = [] \<and>
   two_sum_two_pointers [1, 2, 3] 7 = Inr [] \<and>
   \<not> (\<exists>i j. i \<noteq> j \<and> i < length [1, 2, 3 :: int] \<and> j < length [1, 2, 3 :: int] \<and>
      [1, 2, 3] ! i + [1, 2, 3] ! j = (7 :: int)) \<and>
   length [5 :: int] \<le> 1 \<and>
   two_sum_brute_force [5] 10 = [] \<and> two_sum_hash_map [5] 10 = [] \<and>
   two_sum_two_pointers [5] 10 = Inr []"
proof -
  have bf: "two_sum_brute_force [1, 2, 3] 7 = []" by code_simp
  have hm: "two_sum_hash_map [1, 2, 3] 7 = []" by code_simp
  have tp: "two_sum_two_pointers [1, 2, 3] 7 = Inr []" by code_simp
  have short: "length [5 :: int] \<le> 1" by simp
  from two_sum_complete [of "[1, 2, 3]" 7] bf
  have "\<not> (\<exists>i j. i \<noteq> j \<and> i < length [1, 2, 3 :: int] \<and> j < length [1, 2, 3 :: int] \<and>
      [1, 2, 3] ! i + [1, 2, 3] ! j = (7 :: int))"
    by blast
  moreover from two_sum_complete [of "[5]" 10] short
  have "two_sum_brute_force [5] 10 = [] \<and> two_sum_hash_map [5] 10 = [] \<and>
     two_sum_two_pointers [5] 10 = Inr []"
    by blast
  ultimately show ?thesis using bf hm tp short by blast
qed

text \<open>
  Claim C3, as amended (the dictionary of \<open>two_sum_hash_map\<close> during the scan): on entry
  to iteration \<open>k\<close> the dictionary binds every value seen at the positions before \<open>k\<close>
  to the last of these positions where it was seen, and nothing else; and an iteration
  that does not return stores \<open>nums[k] \<mapsto> k\<close> whether or not \<open>nums[k]\<close> is a key
  already, so a later occurrence of a value replaces the binding of an earlier one.
\<close>

theorem hash_map_binds_last_seen:
  assumes "num_map_at nums target k = Some m" and "k \<le> length nums"
  shows "(\<forall>v p. m v = Some p \<longleftrightarrow>
            p < k \<and> nums ! p = v \<and> (\<forall>p'. p < p' \<and> p' < k \<longrightarrow> nums ! p' \<noteq> v)) \<and>
         (k < length nums \<and> m (target - nums ! k) = None \<longrightarrow>
            num_map_at nums target (Suc k) = Some (m(nums ! k \<mapsto> k)))"
proof (intro conjI allI impI)
  fix v p
  show "m v = Some p \<longleftrightarrow>
      p < k \<and> nums ! p = v \<and> (\<forall>p'. p < p' \<and> p' < k \<longrightarrow> nums ! p' \<noteq> v)"
    by (rule num_map_at_last_seen [OF assms])
next
  assume "k < length nums \<and> m (target - nums ! k) = None"
  then show "num_map_at nums target (Suc k) = Some (m(nums ! k \<mapsto> k))"
    using num_map_at_Suc [OF assms(1)] by blast
qed

theorem hash_map_binds_last_seen_witness:
  "num_map_at [1, 1, 5] 6 1 = Some [1 \<mapsto> 0] \<and> 1 \<le> length [1, 1, 5 :: int] \<and>
   1 < length [1, 1, 5 :: int] \<and> [1 \<mapsto> 0 :: nat] (6 - [1, 1, 5 :: int] ! 1) = None \<and>
   num_map_at [1, 1, 5] 6 (Suc 1) = Some [1 \<mapsto> 0, [1, 1, 5] ! 1 \<mapsto> 1]"
proof -
  have at: "num_map_at [1, 1, 5] 6 1 = Some [1 \<mapsto> 0]"
    by (simp add: num_map_at_def)
  have len: "1 \<le> length [1, 1, 5 :: int]" "1 < length [1, 1, 5 :: int]" by simp_all
  have none: "[1 \<mapsto> 0 :: nat] (6 - [1, 1, 5 :: int] ! 1) = None" by simp
  from hash_map_binds_last_seen [OF at len(1)] len(2) none
  have "num_map_at [1, 1, 5] 6 (Suc 1) = Some [1 \<mapsto> 0, [1, 1, 5] ! 1 \<mapsto> 1]"
    by blast
  with at len none show ?thesis by blast
qed

text \<open>
  The claim as the specification words it (a value is bound to its first-seen position
  and an existing binding is never overwritten) fails on \<open>[1, 1, 5]\<close> with target 6: on
  entry to iteration 1 the value 1 is bound to position 0, on entry to iteration 2 it is
  bound to position 1, and the function returns \<open>[1, 2]\<close>.
\<close>

theorem hash_map_first_seen_counterexample:
  "num_map_at [1, 1, 5] 6 1 = Some [1 \<mapsto> 0] \<and>
   num_map_at [1, 1, 5] 6 2 = Some [1 \<mapsto> 1] \<and>
   two_sum_hash_map [1, 1, 5] 6 = [1, 2]"
  by (simp add: num_map_at_def two_sum_hash_map_def)

text \<open>
  Claim C4 (ordered result of the hash map scan): a non-empty result of
  \<open>two_sum_hash_map\<close> is \<open>[p, q]\<close> where \<open>q\<close> is the first position whose complement
  \<open>target - nums[q]\<close> is a key of the dictionary on entry to its iteration, \<open>p\<close> is the
  index the dictionary holds for that complement, and \<open>p < q\<close>.
\<close>

theorem hash_map_returns_first_hit:
  assumes "two_sum_hash_map nums target = r" and "r \<noteq> []"
  shows "\<exists>p q m. r = [p, q] \<and> p < q \<and> q < length nums \<and>
     num_map_at nums target q = Some m \<and> m (target - nums ! q) = Some p \<and>
     (\<forall>k<q. \<exists>m'. num_map_at nums target k = Some m' \<and> m' (target - nums ! k) = None)"
proof -
  from assms have ne: "two_sum_hash_map nums target \<noteq> []" by simp
  from hash_map_returns_at [OF ne] obtain p q m where pq:
    "two_sum_hash_map nums target = [p, q]" "q < length nums"
    "num_map_at nums target q = Some m" "m (target - nums ! q) = Some p"
    "\<forall>k<q. \<exists>m'. num_map_at nums target k = Some m' \<and> m' (target - nums ! k) = None"
    by blast
  from hash_map_pair [OF ne] pq(1) have "p < q" by auto
  with pq assms(1) show ?thesis by blast
qed

theorem hash_map_returns_first_hit_witness:
  "two_sum_hash_map [3, 2, 4] 6 = [1, 2] \<and>
   (\<exists>p q m. [1, 2] = [p, q] \<and> p < q \<and> q < length [3, 2, 4 :: int] \<and>
     num_map_at [3, 2, 4] 6 q = Some m \<and> m (6 - [3, 2, 4] ! q) = Some p \<and>
     (\<forall>k<q. \<exists>m'. num_map_at [3, 2, 4] 6 k = Some m' \<and> m' (6 - [3, 2, 4] ! k) = None))"
proof -
  have hm: "two_sum_hash_map [3, 2, 4] 6 = [1, 2]" by code_simp
  have "[1, 2] \<noteq> ([] :: nat list)" by simp
  from hash_map_returns_first_hit [OF hm this] hm show ?thesis by blast
qed

text \<open>
  Claim C10 (the second index of the hash map result is minimal): when some pair of
  distinct positions sums to the target, \<open>two_sum_hash_map\<close> returns \<open>[p, q]\<close> where
  \<open>q\<close> is the least position that has a partner at an earlier position.
\<close>

theorem hash_map_second_index_least:
  assumes "a \<noteq> b" and "a < length nums" and "b < length nums"
    and "nums ! a + nums ! b = target"
  shows "\<exists>p q. two_sum_hash_map nums target = [p, q] \<and> p < q \<and> q < length nums \<and>
     nums ! p + nums ! q = target \<and>
     \<not> (\<exists>p' q'. p' < q' \<and> q' < q \<and> nums ! p' + nums ! q' = target)"
proof -
  from assms obtain a' b' where ab: "a' < b'" "b' < length nums" "nums ! a' + nums ! b' = target"
    by (rule ordered_pair_cases)
  have ne: "two_sum_hash_map nums target \<noteq> []"
  proof
    assume "two_sum_hash_map nums target = []"
    from hash_map_Nil [OF this] ab show False by blast
  qed
  from hash_map_pair [OF ne] show ?thesis by blast
qed

theorem hash_map_second_index_least_witness:
  "(0 :: nat) \<noteq> 3 \<and> 0 < length [1, 2, 4, 5 :: int] \<and> 3 < length [1, 2, 4, 5 :: int] \<and>
   [1, 2, 4, 5] ! 0 + [1, 2, 4, 5] ! 3 = (6 :: int) \<and>
   two_sum_hash_map [1, 2, 4, 5] 6 = [1, 2] \<and>
   (\<exists>p q. two_sum_hash_map [1, 2, 4, 5] 6 = [p, q] \<and> p < q \<and> q < length [1, 2, 4, 5 :: int] \<and>
     [1, 2, 4, 5] ! p + [1, 2, 4, 5] ! q = (6 :: int) \<and>
     \<not> (\<exists>p' q'. p' < q' \<and> q' < q \<and> [1, 2, 4, 5] ! p' + [1, 2, 4, 5] ! q' = (6 :: int)))"
proof -
  have h: "(0 :: nat) \<noteq> 3" "0 < length [1, 2, 4, 5 :: int]" "3 < length [1, 2, 4, 5 :: int]"
    "[1, 2, 4, 5] ! 0 + [1, 2, 4, 5] ! 3 = (6 :: int)"
    by simp_all
  have hm: "two_sum_hash_map [1, 2, 4, 5] 6 = [1, 2]" by code_simp
  from hash_map_second_index_least [OF h] h hm show ?thesis by blast
qed

text \<open>
  Claim C7 (scan order of brute force): when some pair of distinct positions sums to the
  target, \<open>two_sum_brute_force\<close> returns \<open>[i, j]\<close> with \<open>i < j\<close>, the first such pair in
  the order of increasing \<open>i\<close>, then increasing \<open>j\<close>: every other pair \<open>i' < j'\<close> that
  sums to the target has \<open>i < i'\<close>, or \<open>i = i'\<close> and \<open>j \<le> j'\<close>.
\<close>

theorem brute_force_lex_least:
  assumes "a \<noteq> b" and "a < length nums" and "b < length nums"
    and "nums ! a + nums ! b = target"
  shows "\<exists>i j. two_sum_brute_force nums target = [i, j] \<and> i < j \<and> j < length nums \<and>
     nums ! i + nums ! j = target \<and>
     (\<forall>i' j'. i' < j' \<and> j' < length nums \<and> nums ! i' + nums ! j' = target \<longrightarrow>
        i < i' \<or> (i = i' \<and> j \<le> j'))"
proof -
  from assms obtain a' b' where ab: "a' < b'" "b' < length nums" "nums ! a' + nums ! b' = target"
    by (rule ordered_pair_cases)
  have "two_sum_brute_force nums target \<noteq> []"
  proof
    assume "two_sum_brute_force nums target = []"
    from brute_force_Nil [OF this] ab show False by blast
  qed
  then show ?thesis by (rule brute_force_pair)
qed

theorem brute_force_lex_least_witness:
  "(1 :: nat) \<noteq> 3 \<and> 1 < length [1, 2, 3, 4, 5 :: int] \<and> 3 < length [1, 2, 3, 4, 5 :: int] \<and>
   [1, 2, 3, 4, 5] ! 1 + [1, 2, 3, 4, 5] ! 3 = (6 :: int) \<and>
   two_sum_brute_force [1, 2, 3, 4, 5] 6 = [0, 4] \<and>
   (\<exists>i j. two_sum_brute_force [1, 2, 3, 4, 5] 6 = [i, j] \<and> i < j \<and>
      j < length [1, 2, 3, 4, 5 :: int] \<and>
      [1, 2, 3, 4, 5] ! i + [1, 2, 3, 4, 5] ! j = (6 :: int) \<and>
      (\<forall>i' j'. i' < j' \<and> j' < length [1, 2, 3, 4, 5 :: int] \<and>
          [1, 2, 3, 4, 5] ! i' + [1, 2, 3, 4, 5] ! j' = (6 :: int) \<longrightarrow>
        i < i' \<or> (i = i' \<and> j \<le> j')))"
proof -
  have h: "(1 :: nat) \<noteq> 3" "1 < length [1, 2, 3, 4, 5 :: int]" "3 < length [1, 2, 3, 4, 5 :: int]"
    "[1, 2, 3, 4, 5] ! 1 + [1, 2, 3, 4, 5] ! 3 = (6 :: int)"
    by simp_all
  have bf: "two_sum_brute_force [1, 2, 3, 4, 5] 6 = [0, 4]" by code_simp
  from brute_force_lex_least [OF h] h bf show ?thesis by blast
qed

text \<open>
  Claim C5 (agreement of the variants under a unique solution): when \<open>i < j\<close> is the
  only pair of distinct positions whose values sum to the target, each of the three
  functions returns a non-empty result naming exactly these two positions, in one order
  or the other.
\<close>

theorem variants_agree_on_unique_solution:
  assumes "i < j" and "j < length nums" and "nums ! i + nums ! j = target"
    and "\<not> (\<exists>a b. a < b \<and> b < length nums \<and> nums ! a + nums ! b = target \<and> (a \<noteq> i \<or> b \<noteq> j))"
  shows "(two_sum_brute_force nums target = [i, j] \<or> two_sum_brute_force nums target = [j, i]) \<and>
     (two_sum_hash_map nums target = [i, j] \<or> two_sum_hash_map nums target = [j, i]) \<and>
     (two_sum_two_pointers nums target = Inr [i, j] \<or>
      two_sum_two_pointers nums target = Inr [j, i])"
proof -
  have only: "\<And>a b. a \<noteq> b \<Longrightarrow> a < length nums \<Longrightarrow> b < length nums \<Longrightarrow>
      nums ! a + nums ! b = target \<Longrightarrow> [a, b] = [i, j] \<or> [a, b] = [j, i]"
  proof -
    fix a b :: nat
    assume h: "a \<noteq> b" "a < length nums" "b < length nums" "nums ! a + nums ! b = target"
    show "[a, b] = [i, j] \<or> [a, b] = [j, i]"
    proof (cases "a < b")
      case True
      with h assms(4) show ?thesis by auto
    next
      case False
      with h have "b < a" "nums ! b + nums ! a = target" by (simp_all add: add.commute)
      with h assms(4) show ?thesis by auto
    qed
  qed
  have bf: "two_sum_brute_force nums target = [i, j] \<or> two_sum_brute_force nums target = [j, i]"
  proof -
    have "two_sum_brute_force nums target \<noteq> []"
    proof
      assume "two_sum_brute_force nums target = []"
      from brute_force_Nil [OF this] assms(1-3) show False by blast
    qed
    from brute_force_pair [OF this] obtain a b where
      "two_sum_brute_force nums target = [a, b]" "a < b" "b < length nums"
      "nums ! a + nums ! b = target" by blast
    with only [of a b] show ?thesis by auto
  qed
  have hm: "two_sum_hash_map nums target = [i, j] \<or> two_sum_hash_map nums target = [j, i]"
  proof -
    have "two_sum_hash_map nums target \<noteq> []"
    proof
      assume "two_sum_hash_map nums target = []"
      from hash_map_Nil [OF this] assms(1-3) show False by blast
    qed
    from hash_map_pair [OF this] obtain a b where
      "two_sum_hash_map nums target = [a, b]" "a < b" "b < length nums"
      "nums ! a + nums ! b = target" by blast
    with only [of a b] show ?thesis by auto
  qed
  have tp: "two_sum_two_pointers nums target = Inr [i, j] \<or>
      two_sum_two_pointers nums target = Inr [j, i]"
  proof -
    from two_pointers_shape [of nums target]
    obtain res where res: "two_sum_two_pointers nums target = Inr res" by blast
    have "res \<noteq> []"
    proof
      assume "res = []"
      with res two_pointers_Nil [of nums target] assms(1-3) show False
        by (metis less_trans nat_neq_iff)
    qed
    from two_pointers_pair [OF res this] obtain a b where
      "res = [a, b]" "a \<noteq> b" "a < length nums" "b < length nums"
      "nums ! a + nums ! b = target" by blast
    with only [of a b] res show ?thesis by auto
  qed
  from bf hm tp show ?thesis by blast
qed

lemma less_3_cases: "(b :: nat) < 3 \<Longrightarrow> b = 0 \<or> b = 1 \<or> b = 2"
  by arith

theorem variants_agree_on_unique_solution_witness:
  "(0 :: nat) < 1 \<and> 1 < length [4, 2, 7 :: int] \<and> [4, 2, 7] ! 0 + [4, 2, 7] ! 1 = (6 :: int) \<and>
   \<not> (\<exists>a b. a < b \<and> b < length [4, 2, 7 :: int] \<and> [4, 2, 7] ! a + [4, 2, 7] ! b = (6 :: int) \<and>
        (a \<noteq> 0 \<or> b \<noteq> 1)) \<and>
   two_sum_brute_force [4, 2, 7] 6 = [0, 1] \<and> two_sum_hash_map [4, 2, 7] 6 = [0, 1] \<and>
   two_sum_two_pointers [4, 2, 7] 6 = Inr [1, 0]"
proof -
  have h: "(0 :: nat) < 1" "1 < length [4, 2, 7 :: int]"
    "[4, 2, 7] ! 0 + [4, 2, 7] ! 1 = (6 :: int)"
    by simp_all
  have uniq: "\<not> (\<exists>a b. a < b \<and> b < length [4, 2, 7 :: int] \<and>
      [4, 2, 7] ! a + [4, 2, 7] ! b = (6 :: int) \<and> (a \<noteq> 0 \<or> b \<noteq> 1))"
  proof
    assume "\<exists>a b. a < b \<and> b < length [4, 2, 7 :: int] \<and>
      [4, 2, 7] ! a + [4, 2, 7] ! b = (6 :: int) \<and> (a \<noteq> 0 \<or> b \<noteq> 1)"
    then obtain a b :: nat where ab: "a < b" "b < 3"
      "[4, 2, 7] ! a + [4, 2, 7] ! b = (6 :: int)" "a \<noteq> 0 \<or> b \<noteq> 1"
      by auto
    from ab(2) have "b = 0 \<or> b = 1 \<or> b = 2" by (rule less_3_cases)
    moreover from ab(1,2) have "a = 0 \<or> a = 1 \<or> a = 2" by (intro less_3_cases) simp
    ultimately show False using ab(1,3,4) by auto
  qed
  have bf: "two_sum_brute_force [4, 2, 7] 6 \<noteq> [1, 0]" by code_simp
  have hm: "two_sum_hash_map [4, 2, 7] 6 \<noteq> [1, 0]" by code_simp
  have tp: "two_sum_two_pointers [4, 2, 7] 6 \<noteq> Inr [0, 1]" by code_simp
  from variants_agree_on_unique_solution [OF h uniq] bf hm tp uniq h
  show ?thesis by blast
qed

text \<open>
  Claim C6 (duplicate values): when a value \<open>v\<close> stands at two positions \<open>p < q\<close> and
  the target is \<open>2 * v\<close>, \<open>two_sum_hash_map\<close> returns two different positions
  \<open>a < b\<close>, found no later than \<open>q\<close>, whose values sum to the target; and if the scan
  gets as far as \<open>q\<close>, the lookup of the complement there finds the index of an earlier
  occurrence of \<open>v\<close>. On \<open>[3, 3]\<close> with target 6 every variant returns the positions
  0 and 1.
\<close>

theorem hash_map_pairs_duplicates:
  assumes "p < q" and "q < length nums" and "nums ! p = v" and "nums ! q = v"
    and "target = 2 * v"
  shows "(\<exists>a b. two_sum_hash_map nums target = [a, b] \<and> a < b \<and> b \<le> q \<and>
            nums ! a + nums ! b = target) \<and>
         (\<forall>m. num_map_at nums target q = Some m \<longrightarrow>
            (\<exists>a. m (target - nums ! q) = Some a \<and> a < q \<and> nums ! a = v)) \<and>
         two_sum_brute_force [3, 3] 6 = [0, 1] \<and> two_sum_hash_map [3, 3] 6 = [0, 1] \<and>
         two_sum_two_pointers [3, 3] 6 = Inr [0, 1]"
proof (intro conjI allI impI)
  have sum: "nums ! p + nums ! q = target" using assms(3-5) by simp
  have ne: "two_sum_hash_map nums target \<noteq> []"
  proof
    assume "two_sum_hash_map nums target = []"
    from hash_map_Nil [OF this] assms(1,2) sum show False by blast
  qed
  from hash_map_pair [OF ne] obtain a b where ab:
    "two_sum_hash_map nums target = [a, b]" "a < b" "b < length nums"
    "nums ! a + nums ! b = target"
    "\<forall>p' q'. p' < q' \<and> q' < b \<longrightarrow> nums ! p' + nums ! q' \<noteq> target"
    by blast
  from ab(5) assms(1) sum have "\<not> q < b" by blast
  then have "b \<le> q" by simp
  with ab show "\<exists>a b. two_sum_hash_map nums target = [a, b] \<and> a < b \<and> b \<le> q \<and>
            nums ! a + nums ! b = target"
    by blast
next
  fix m assume at: "num_map_at nums target q = Some m"
  from assms(2) have qle: "q \<le> length nums" by simp
  have compl: "target - nums ! q = v" using assms(4,5) by simp
  have "m v \<noteq> None"
    using num_map_at_dom [OF at qle, of v] assms(1,3) by blast
  then obtain a where a: "m v = Some a" by blast
  from num_map_at_last_seen [OF at qle, of v a] a have "a < q" "nums ! a = v" by simp_all
  with a compl show "\<exists>a. m (target - nums ! q) = Some a \<and> a < q \<and> nums ! a = v" by simp
next
  show "two_sum_brute_force [3, 3] 6 = [0, 1]" by code_simp
  show "two_sum_hash_map [3, 3] 6 = [0, 1]" by code_simp
  show "two_sum_two_pointers [3, 3] 6 = Inr [0, 1]" by code_simp
qed

theorem hash_map_pairs_duplicates_witness:
  "(0 :: nat) < 2 \<and> 2 < length [3, 5, 3 :: int] \<and> [3, 5, 3] ! 0 = (3 :: int) \<and>
   [3, 5, 3] ! 2 = (3 :: int) \<and> (6 :: int) = 2 * 3 \<and>
   num_map_at [3, 5, 3] 6 2 = Some [3 \<mapsto> 0, 5 \<mapsto> 1] \<and>
   two_sum_hash_map [3, 5, 3] 6 = [0, 2] \<and>
   (\<exists>a b. two_sum_hash_map [3, 5, 3] 6 = [a, b] \<and> a < b \<and> b \<le> 2 \<and>
      [3, 5, 3] ! a + [3, 5, 3] ! b = (6 :: int)) \<and>
   (\<exists>a. [3 \<mapsto> 0, 5 \<mapsto> 1] (6 - [3, 5, 3 :: int] ! 2) = Some a \<and> a < 2 \<and> [3, 5, 3] ! a = (3 :: int))"
proof -
  have h: "(0 :: nat) < 2" "2 < length [3, 5, 3 :: int]" "[3, 5, 3] ! 0 = (3 :: int)"
    "[3, 5, 3] ! 2 = (3 :: int)" "(6 :: int) = 2 * 3"
    by simp_all
  have at: "num_map_at [3, 5, 3] 6 2 = Some [3 \<mapsto> 0, 5 \<mapsto> 1]"
    by (simp add: num_map_at_def numeral_2_eq_2)
  have hm: "two_sum_hash_map [3, 5, 3] 6 = [0, 2]" by code_simp
  from hash_map_pairs_duplicates [OF h] at hm h show ?thesis by blast
qed

text \<open>
  Claim C8 (termination): every loop of the three functions terminates on every input
  (each argument is in the domain of the recursion that models the loop, that is, the
  chain of iterations starting from it is well-founded), and \<open>two_sum_two_pointers\<close>
  returns a result rather than raising. In the two pointer loop an iteration that does
  not return either moves \<open>left\<close> up by one or \<open>right\<close> down by one, so \<open>right - left\<close>
  becomes strictly smaller, and the loop stops with the empty result as soon as
  \<open>left < right\<close> fails.
\<close>

theorem variants_terminate:
  "bf_inner_dom (nums, target, i, j) \<and> bf_outer_dom (nums, target, i) \<and>
   hm_scan_dom (num_map, i, nums, target) \<and>
   tp_loop_dom (indexed_nums, target, left, right) \<and>
   (\<exists>r. two_sum_two_pointers nums target = Inr r) \<and>
   (\<forall>left' right'. left < right \<and>
        tp_body indexed_nums target left right = Continue left' right' \<longrightarrow>
      (left' = left + 1 \<and> right' = right \<or> left' = left \<and> right' = right - 1) \<and>
      right' - left' < right - left) \<and>
   (\<not> left < right \<longrightarrow> tp_loop indexed_nums target left right = Inr [])"
proof (intro conjI allI impI)
  have "All bf_inner_dom"
    by (relation "measure (\<lambda>(nums, target, i, j). length nums - j)") auto
  then show "bf_inner_dom (nums, target, i, j)" ..
  have "All bf_outer_dom"
    by (relation "measure (\<lambda>(nums, target, i). length nums - i)") auto
  then show "bf_outer_dom (nums, target, i)" ..
  have "All hm_scan_dom"
    by (relation "measure (\<lambda>(num_map, i, nums, target). length nums)") auto
  then show "hm_scan_dom (num_map, i, nums, target)" ..
  have "All tp_loop_dom"
    by (relation "measure (\<lambda>(indexed_nums, target, left, right). nat (right - left))")
       (auto simp: tp_body_def Let_def split: sum.splits if_splits)
  then show "tp_loop_dom (indexed_nums, target, left, right)" ..
  show "\<exists>r. two_sum_two_pointers nums target = Inr r"
    using two_pointers_shape [of nums target] by blast
next
  fix left' right'
  assume "left < right \<and> tp_body indexed_nums target left right = Continue left' right'"
  then have "left' = left + 1 \<and> right' = right \<or> left' = left \<and> right' = right - 1"
    by (auto simp: tp_body_def Let_def split: sum.splits if_splits)
  then show "left' = left + 1 \<and> right' = right \<or> left' = left \<and> right' = right - 1"
    and "right' - left' < right - left"
    by auto
next
  assume "\<not> left < right"
  then show "tp_loop indexed_nums target left right = Inr []"
    by (simp add: tp_loop.simps [of indexed_nums target left right])
qed

theorem variants_terminate_witness:
  "(0 :: int) < 2 \<and> tp_body [(2, 1), (3, 0), (4, 2)] 7 0 2 = Continue 1 2 \<and>
   (2 :: int) - 1 < 2 - 0 \<and> \<not> (2 :: int) < 2 \<and>
   tp_loop [(2, 1), (3, 0), (4, 2)] 7 2 2 = Inr [] \<and>
   tp_loop_dom ([(2, 1), (3, 0), (4, 2)], 7, 0, 2)"
proof -
  have b: "tp_body [(2, 1), (3, 0), (4, 2)] 7 0 2 = Continue 1 2"
    by (simp add: tp_body_def py_index_def)
  have "(0 :: int) < 2" "\<not> (2 :: int) < 2" by simp_all
  with b variants_terminate [of "[]" 7 0 0 Map.empty "[(2, 1), (3, 0), (4, 2)]" 0 2]
    variants_terminate [of "[]" 7 0 0 Map.empty "[(2, 1), (3, 0), (4, 2)]" 2 2]
  show ?thesis by simp
qed

section \<open>The functions on the store\<close>

lemma heap_get_update_other:
  "a \<noteq> b \<Longrightarrow> heap_get (h[b := ob]) a = heap_get h a"
  by (simp add: heap_get_def)

lemma heap_get_update_same:
  "heap_get h b = Some ob' \<Longrightarrow> heap_get (h[b := ob]) b = Some ob"
  by (simp add: heap_get_def split: if_splits)

lemma heap_get_append:
  "heap_get h a = Some ob \<Longrightarrow> heap_get (h @ hs) a = Some ob"
  by (auto simp: heap_get_def nth_append split: if_splits)

lemma heap_get_take:
  assumes "take (length h) h' = h" and "heap_get h a = Some ob"
  shows "heap_get h' a = Some ob"
proof -
  have "h' = h @ drop (length h) h'"
    using assms(1) by (metis append_take_drop_id)
  with heap_get_append [OF assms(2), of "drop (length h) h'"] show ?thesis by simp
qed

text \<open>
  The loop of the hash map function on the store computes what \<open>hm_scan\<close> computes on
  the rest of the list, and changes the store at the dictionary's address only.
\<close>

lemma hm_scan_on_refines:
  assumes "heap_get h nums = Some (IntList xs)" and "heap_get h num_map = Some (IntDict d)"
  shows "\<exists>h'. hm_scan_on h nums num_map i target =
            (Inr (case hm_scan d i (drop i xs) target of Inl r \<Rightarrow> r | Inr d' \<Rightarrow> []), h') \<and>
          length h' = length h \<and> (\<forall>a. a \<noteq> num_map \<longrightarrow> h' ! a = h ! a)"
  using assms
proof (induction "length xs - i" arbitrary: i h d)
  case 0
  then have "\<not> i < length xs" by simp
  with "0.prems" show ?case
    by (simp add: hm_scan_on.simps [of h nums num_map i target])
next
  case (Suc n)
  then have inrange: "i < length xs" by simp
  have neq: "nums \<noteq> num_map" using Suc.prems by auto
  have dr: "drop i xs = xs ! i # drop (Suc i) xs"
    using inrange by (simp add: Cons_nth_drop_Suc)
  show ?case
  proof (cases "d (target - xs ! i)")
    case (Some p)
    with Suc.prems inrange dr show ?thesis
      by (simp add: hm_scan_on.simps [of h nums num_map i target] Let_def)
  next
    case None
    let ?h1 = "h[num_map := IntDict (d(xs ! i \<mapsto> i))]"
    have step: "hm_scan_on h nums num_map i target = hm_scan_on ?h1 nums num_map (Suc i) target"
      using Suc.prems inrange None
      by (simp add: hm_scan_on.simps [of h nums num_map i target] Let_def)
    have g1: "heap_get ?h1 nums = Some (IntList xs)"
      using Suc.prems(1) neq by (simp add: heap_get_update_other)
    have g2: "heap_get ?h1 num_map = Some (IntDict (d(xs ! i \<mapsto> i)))"
      using Suc.prems(2) by (rule heap_get_update_same)
    have "n = length xs - Suc i" using Suc.hyps(2) by simp
    from Suc.hyps(1) [OF this g1 g2] obtain h' where h':
      "hm_scan_on ?h1 nums num_map (Suc i) target =
         (Inr (case hm_scan (d(xs ! i \<mapsto> i)) (Suc i) (drop (Suc i) xs) target of
                 Inl r \<Rightarrow> r | Inr d' \<Rightarrow> []), h')"
      "length h' = length ?h1" "\<forall>a. a \<noteq> num_map \<longrightarrow> h' ! a = ?h1 ! a"
      by blast
    have "hm_scan d i (drop i xs) target =
        hm_scan (d(xs ! i \<mapsto> i)) (Suc i) (drop (Suc i) xs) target"
      using None by (simp add: dr Let_def)
    with step h' show ?thesis by simp
  qed
qed

lemma brute_force_on_result:
  assumes "heap_get h nums = Some (IntList xs)"
  shows "brute_force_on h nums target = (Inr (two_sum_brute_force xs target), h)"
  using assms by (simp add: brute_force_on_def)

lemma hash_map_on_result:
  assumes "heap_get h nums = Some (IntList xs)"
  shows "\<exists>h'. hash_map_on h nums target = (Inr (two_sum_hash_map xs target), h') \<and>
     take (length h) h' = h"
proof -
  let ?h1 = "h @ [IntDict Map.empty]"
  have g1: "heap_get ?h1 nums = Some (IntList xs)"
    using assms by (rule heap_get_append)
  have g2: "heap_get ?h1 (length h) = Some (IntDict Map.empty)"
    by (simp add: heap_get_def)
  from hm_scan_on_refines [OF g1 g2, of 0 target] obtain h' where h':
    "hm_scan_on ?h1 nums (length h) 0 target =
       (Inr (case hm_scan Map.empty 0 xs target of Inl r \<Rightarrow> r | Inr d' \<Rightarrow> []), h')"
    "length h' = length ?h1" "\<forall>a. a \<noteq> length h \<longrightarrow> h' ! a = ?h1 ! a"
    by auto
  have "take (length h) h' = h"
  proof (rule nth_equalityI)
    show "length (take (length h) h') = length h" using h'(2) by simp
  next
    fix a assume "a < length (take (length h) h')"
    then have a: "a < length h" by simp
    with h'(3) have "h' ! a = ?h1 ! a" by simp
    with a show "take (length h) h' ! a = h ! a" by (simp add: nth_append)
  qed
  moreover have "hash_map_on h nums target = hm_scan_on ?h1 nums (length h) 0 target"
    using assms by (simp add: hash_map_on_def heap_new_def)
  ultimately show ?thesis using h'(1) by (simp add: two_sum_hash_map_def)
qed

lemma two_pointers_on_eq:
  assumes "heap_get h nums = Some (IntList xs)"
  shows "two_pointers_on h nums target =
     (two_sum_two_pointers xs target,
      h @ [PairList (sort_key fst (map (\<lambda>(idx, num). (num, idx)) (enumerate 0 xs)))])"
proof -
  let ?ps = "map (\<lambda>(idx, num). (num, idx)) (enumerate 0 xs)"
  have "sort_on (h @ [PairList ?ps]) (length h) = h @ [PairList (sort_key fst ?ps)]"
    by (simp add: sort_on_def heap_get_def)
  moreover have "heap_get (h @ [PairList (sort_key fst ?ps)]) (length h) =
      Some (PairList (sort_key fst ?ps))"
    by (simp add: heap_get_def)
  ultimately show ?thesis
    using assms
    by (simp add: two_pointers_on_def heap_new_def two_sum_two_pointers_def Let_def)
qed

lemma two_pointers_on_result:
  assumes "heap_get h nums = Some (IntList xs)"
  shows "\<exists>h'. two_pointers_on h nums target = (two_sum_two_pointers xs target, h') \<and>
     take (length h) h' = h"
  by (simp add: two_pointers_on_eq [OF assms])

text \<open>
  Claim C9 (purity and non-mutation): a call of any of the three functions on a store
  where \<open>nums\<close> is a list of integers leaves every object that was in the store before
  the call as it was, the list \<open>nums\<close> among them; a second call with the same arguments,
  on the store the first call left, returns the same result; and the result is the one
  the function computes from the list as a value.
\<close>

theorem calls_leave_input_unchanged:
  assumes "heap_get h nums = Some (IntList xs)"
  shows "(let (r, h') = brute_force_on h nums target in
            r = Inr (two_sum_brute_force xs target) \<and> take (length h) h' = h \<and>
            heap_get h' nums = Some (IntList xs) \<and> fst (brute_force_on h' nums target) = r) \<and>
         (let (r, h') = hash_map_on h nums target in
            r = Inr (two_sum_hash_map xs target) \<and> take (length h) h' = h \<and>
            heap_get h' nums = Some (IntList xs) \<and> fst (hash_map_on h' nums target) = r) \<and>
         (let (r, h') = two_pointers_on h nums target in
            r = two_sum_two_pointers xs target \<and> take (length h) h' = h \<and>
            heap_get h' nums = Some (IntList xs) \<and> fst (two_pointers_on h' nums target) = r)"
proof (intro conjI)
  show "let (r, h') = brute_force_on h nums target in
            r = Inr (two_sum_brute_force xs target) \<and> take (length h) h' = h \<and>
            heap_get h' nums = Some (IntList xs) \<and> fst (brute_force_on h' nums target) = r"
    using assms by (simp add: brute_force_on_result)
next
  from hash_map_on_result [OF assms, of target] obtain h' where h':
    "hash_map_on h nums target = (Inr (two_sum_hash_map xs target), h')"
    "take (length h) h' = h" by blast
  have g: "heap_get h' nums = Some (IntList xs)"
    using h'(2) assms by (rule heap_get_take)
  from hash_map_on_result [OF g, of target]
  have "fst (hash_map_on h' nums target) = Inr (two_sum_hash_map xs target)" by auto
  with h' g show "let (r, h') = hash_map_on h nums target in
            r = Inr (two_sum_hash_map xs target) \<and> take (length h) h' = h \<and>
            heap_get h' nums = Some (IntList xs) \<and> fst (hash_map_on h' nums target) = r"
    by simp
next
  from two_pointers_on_result [OF assms, of target] obtain h' where h':
    "two_pointers_on h nums target = (two_sum_two_pointers xs target, h')"
    "take (length h) h' = h" by blast
  have g: "heap_get h' nums = Some (IntList xs)"
    using h'(2) assms by (rule heap_get_take)
  from two_pointers_on_result [OF g, of target]
  have "fst (two_pointers_on h' nums target) = two_sum_two_pointers xs target" by auto
  with h' g show "let (r, h') = two_pointers_on h nums target in
            r = two_sum_two_pointers xs target \<and> take (length h) h' = h \<and>
            heap_get h' nums = Some (IntList xs) \<and> fst (two_pointers_on h' nums target) = r"
    by simp
qed

theorem calls_leave_input_unchanged_witness:
  "heap_get [IntList [3, 2, 4]] 0 = Some (IntList [3, 2, 4]) \<and>
   brute_force_on [IntList [3, 2, 4]] 0 6 = (Inr [1, 2], [IntList [3, 2, 4]]) \<and>
   hash_map_on [IntList [3, 2, 4]] 0 6 = (Inr [1, 2], [IntList [3, 2, 4], IntDict [3 \<mapsto> 0, 2 \<mapsto> 1]]) \<and>
   two_pointers_on [IntList [3, 2, 4]] 0 6 =
     (Inr [1, 2], [IntList [3, 2, 4], PairList [(2, 1), (3, 0), (4, 2)]]) \<and>
   fst (hash_map_on [IntList [3, 2, 4], IntDict [3 \<mapsto> 0, 2 \<mapsto> 1]] 0 6) = Inr [1, 2] \<and>
   fst (two_pointers_on [IntList [3, 2, 4], PairList [(2, 1), (3, 0), (4, 2)]] 0 6) = Inr [1, 2]"
proof -
  have g: "heap_get [IntList [3, 2, 4]] 0 = Some (IntList [3, 2, 4])"
    by (simp add: heap_get_def)
  have "two_sum_brute_force [3, 2, 4] 6 = [1, 2]" by code_simp
  then have bf: "brute_force_on [IntList [3, 2, 4]] 0 6 = (Inr [1, 2], [IntList [3, 2, 4]])"
    by (simp add: brute_force_on_result [OF g])
  have hm: "hash_map_on [IntList [3, 2, 4]] 0 6 =
      (Inr [1, 2], [IntList [3, 2, 4], IntDict [3 \<mapsto> 0, 2 \<mapsto> 1]])"
    by (simp add: hash_map_on_def heap_get_def heap_new_def hm_scan_on.simps)
  have tp: "two_pointers_on [IntList [3, 2, 4]] 0 6 =
      (Inr [1, 2], [IntList [3, 2, 4], PairList [(2, 1), (3, 0), (4, 2)]])"
  proof -
    have "two_sum_two_pointers [3, 2, 4] 6 = Inr [1, 2]" by code_simp
    moreover have "sort_key fst (map (\<lambda>(idx, num). (num, idx)) (enumerate 0 [3, 2, 4 :: int])) =
        [(2, 1), (3, 0), (4, 2)]"
      by code_simp
    ultimately show ?thesis by (simp add: two_pointers_on_eq [OF g])
  qed
  from calls_leave_input_unchanged [OF g, of 6] bf hm tp g show ?thesis
    by simp
qed

end
